theory Spec2Isabelle
  imports Complex_Main
begin

section \<open>Text\<close>

text \<open>
  A Python \<open>str\<close> is modelled as a \<open>string\<close>, one \<open>char\<close> per character, so the texts
  of the model are those whose code points lie below 256 (Latin-1). On these the
  character classes and the case mappings are Python's:

  \<^item> white space, for \<open>str.isspace\<close>, \<open>str.strip\<close> and the pattern \<open>\s\<close>: tab to carriage
    return (9 to 13), the separators 28 to 31, the blank, NEL (0x85) and the no-break
    space (0xA0);
  \<^item> word characters, for \<open>\w\<close> and \<open>\b\<close>: the underscore and what \<open>str.isalnum\<close> accepts,
    that is the ASCII letters and digits, 0xAA, 0xB2, 0xB3, 0xB5, 0xB9, 0xBA, 0xBC to 0xBE,
    0xC0 to 0xD6, 0xD8 to 0xF6 and 0xF8 to 0xFF;
  \<^item> \<open>\d\<close>: the ASCII digits only;
  \<^item> lower case: \<open>A\<close> to \<open>Z\<close>, 0xC0 to 0xD6 and 0xD8 to 0xDE move up by 32; upper case is
    the inverse, and 0xB5, 0xDF and 0xFF, whose upper case lies above 255, stay as they are
    (no class of the patterns below contains a character above 127).

  \<open>is_upper\<close>, \<open>is_lower\<close> and \<open>is_digit\<close> are the ranges \<open>A-Z\<close>, \<open>a-z\<close> and \<open>0-9\<close>.
\<close>

definition is_upper :: "char \<Rightarrow> bool" where
  "is_upper c = (let n = of_char c :: nat in 65 \<le> n \<and> n \<le> 90)"

definition is_lower :: "char \<Rightarrow> bool" where
  "is_lower c = (let n = of_char c :: nat in 97 \<le> n \<and> n \<le> 122)"

definition is_digit :: "char \<Rightarrow> bool" where
  "is_digit c = (let n = of_char c :: nat in 48 \<le> n \<and> n \<le> 57)"

definition is_space :: "char \<Rightarrow> bool" where
  "is_space c = (let n = of_char c :: nat
                 in (9 \<le> n \<and> n \<le> 13) \<or> (28 \<le> n \<and> n \<le> 32) \<or> n = 133 \<or> n = 160)"

definition is_word :: "char \<Rightarrow> bool" where
  "is_word c = (let n = of_char c :: nat
                in (48 \<le> n \<and> n \<le> 57) \<or> (65 \<le> n \<and> n \<le> 90) \<or> n = 95 \<or> (97 \<le> n \<and> n \<le> 122)
                   \<or> n = 170 \<or> n = 178 \<or> n = 179 \<or> n = 181 \<or> n = 185 \<or> n = 186
                   \<or> (188 \<le> n \<and> n \<le> 190) \<or> (192 \<le> n \<and> n \<le> 214)
                   \<or> (216 \<le> n \<and> n \<le> 246) \<or> 248 \<le> n)"

definition lower_chr :: "char \<Rightarrow> char" where
  "lower_chr c = (let n = of_char c :: nat
                  in if (65 \<le> n \<and> n \<le> 90) \<or> (192 \<le> n \<and> n \<le> 214) \<or> (216 \<le> n \<and> n \<le> 222)
                     then char_of (n + 32) else c)"

definition upper_chr :: "char \<Rightarrow> char" where
  "upper_chr c = (let n = of_char c :: nat
                  in if (97 \<le> n \<and> n \<le> 122) \<or> (224 \<le> n \<and> n \<le> 246) \<or> (248 \<le> n \<and> n \<le> 254)
                     then char_of (n - 32) else c)"

text \<open>\<open>s.lower()\<close>\<close>

definition lower :: "string \<Rightarrow> string" where
  "lower s = map lower_chr s"

text \<open>\<open>s.strip()\<close>: white space removed at both ends.\<close>

definition strip :: "string \<Rightarrow> string" where
  "strip s = rev (dropWhile is_space (rev (dropWhile is_space s)))"

text \<open>\<open>s.rstrip(chars)\<close>: trailing characters of \<open>chars\<close> removed.\<close>

definition rstrip_chars :: "string \<Rightarrow> string \<Rightarrow> string" where
  "rstrip_chars chars s = rev (dropWhile (\<lambda>c. c \<in> set chars) (rev s))"

text \<open>\<open>s[i:j]\<close> for \<open>0 \<le> i\<close>, \<open>0 \<le> j\<close>; \<open>s[:n]\<close> is \<open>take n s\<close>.\<close>

definition slice :: "string \<Rightarrow> nat \<Rightarrow> nat \<Rightarrow> string" where
  "slice s i j = take (j - i) (drop i s)"

text \<open>\<open>s.startswith(sub)\<close> and \<open>sub in s\<close> (a contiguous occurrence).\<close>

fun starts_with :: "string \<Rightarrow> string \<Rightarrow> bool" where
  "starts_with s [] = True"
| "starts_with [] (p # ps) = False"
| "starts_with (c # cs) (p # ps) = (c = p \<and> starts_with cs ps)"

fun str_contains :: "string \<Rightarrow> string \<Rightarrow> bool" where
  "str_contains [] sub = starts_with [] sub"
| "str_contains (c # cs) sub = (starts_with (c # cs) sub \<or> str_contains cs sub)"

text \<open>A list without its repeated elements: the first occurrence of each is kept.\<close>

definition first_occurrences :: "'a list \<Rightarrow> 'a list" where
  "first_occurrences xs = rev (remdups (rev xs))"

section \<open>Regular expressions as Python's \<open>re\<close> module matches them\<close>

text \<open>
  The analyzers are regular-expression scans, so the model needs the matching of the
  \<open>re\<close> module: a backtracking search that tries the alternatives of a pattern in
  priority order (a greedy repetition the longest run first, a lazy one the shortest
  first, an alternation left to right) and returns the first way the whole pattern
  matches; \<open>finditer\<close> then scans the start positions from left to right and continues
  after each match. Only the constructs the program's patterns use are modelled; every
  repetition in them ranges over a single character class.
\<close>

datatype flags = Flags (ignorecase: bool) (multiline: bool) (dotall: bool)

text \<open>An item of a bracket class: a character, a range, or one of \<open>\d\<close>, \<open>\s\<close>, \<open>\w\<close>.\<close>

datatype item = Ch char | Rng char char | Digit | Space | WordCh

text \<open>A one-character pattern: the dot, or a class (\<open>Cls True\<close> is a negated class).\<close>

datatype atom = Dot | Cls bool "item list"

datatype regex =
    Atom atom
  | Str string
  | Seq regex regex
  | Alt regex regex
  | Rep bool nat "nat option" atom
  | Opt regex
  | Grp nat regex
  | Look regex
  | Bol
  | Eol
  | Wordb

text \<open>
  \<open>Str s\<close> is a literal string, \<open>Rep greedy lo hi a\<close> the repetition \<open>a{lo,hi}\<close> (no upper
  bound for \<open>None\<close>), \<open>Opt r\<close> is \<open>(?:r)?\<close>, \<open>Grp n r\<close> the capturing match_group number \<open>n\<close>,
  \<open>Look r\<close> the lookahead \<open>(?=r)\<close>, \<open>Bol\<close>, \<open>Eol\<close> and \<open>Wordb\<close> are \<open>^\<close>, \<open>$\<close> and \<open>\b\<close>.

  A matcher state: the offset reached in the text and the spans of the groups closed so
  far (the latest first). The text itself is a parameter of the matcher.
\<close>

datatype mstate = MState (pos: nat) (caps: "(nat \<times> nat \<times> nat) list")

fun item_ok :: "item \<Rightarrow> char \<Rightarrow> bool" where
  "item_ok (Ch d) c = (c = d)"
| "item_ok (Rng lo hi) c = ((of_char lo :: nat) \<le> of_char c \<and> (of_char c :: nat) \<le> of_char hi)"
| "item_ok Digit c = is_digit c"
| "item_ok Space c = is_space c"
| "item_ok WordCh c = is_word c"

text \<open>
  Under \<open>IGNORECASE\<close> a class accepts a character when it accepts it in either case; the
  negation of a class applies to the result.
\<close>

definition in_items :: "flags \<Rightarrow> item list \<Rightarrow> char \<Rightarrow> bool" where
  "in_items f items c =
     list_ex (\<lambda>it. item_ok it c
                \<or> (ignorecase f \<and> (item_ok it (lower_chr c) \<or> item_ok it (upper_chr c)))) items"

fun atom_ok :: "flags \<Rightarrow> atom \<Rightarrow> char \<Rightarrow> bool" where
  "atom_ok f Dot c = (dotall f \<or> c \<noteq> CHR 0x0A)"
| "atom_ok f (Cls neg items) c = (in_items f items c \<noteq> neg)"

definition chr_eq :: "flags \<Rightarrow> char \<Rightarrow> char \<Rightarrow> bool" where
  "chr_eq f p c = (if ignorecase f then lower_chr p = lower_chr c else p = c)"

text \<open>A literal string at offset \<open>i\<close>: the offset after it, if it is there.\<close>

fun lit :: "flags \<Rightarrow> string \<Rightarrow> string \<Rightarrow> nat \<Rightarrow> nat option" where
  "lit f text [] i = Some i"
| "lit f text (p # ps) i =
     (if i < length text \<and> chr_eq f p (text ! i) then lit f text ps (i + 1) else None)"

text \<open>
  \<open>^\<close> holds at the start of the text and, with \<open>MULTILINE\<close>, after a newline; \<open>$\<close> at
  the end of the text, before a newline that ends the text and, with \<open>MULTILINE\<close>, before
  any newline; \<open>\b\<close> where exactly one of the two neighbours is a word character.
\<close>

definition at_bol :: "flags \<Rightarrow> string \<Rightarrow> nat \<Rightarrow> bool" where
  "at_bol f text i =
     (i = 0 \<or> (multiline f \<and> i \<le> length text \<and> text ! (i - 1) = CHR 0x0A))"

definition at_eol :: "flags \<Rightarrow> string \<Rightarrow> nat \<Rightarrow> bool" where
  "at_eol f text i =
     (length text \<le> i \<or> (text ! i = CHR 0x0A \<and> (multiline f \<or> i + 1 = length text)))"

definition word_before :: "string \<Rightarrow> nat \<Rightarrow> bool" where
  "word_before text i = (0 < i \<and> i \<le> length text \<and> is_word (text ! (i - 1)))"

definition word_after :: "string \<Rightarrow> nat \<Rightarrow> bool" where
  "word_after text i = (i < length text \<and> is_word (text ! i))"

definition at_wordb :: "string \<Rightarrow> nat \<Rightarrow> bool" where
  "at_wordb text i = (word_before text i \<noteq> word_after text i)"

definition hi_ok :: "nat option \<Rightarrow> bool" where
  "hi_ok hi = (case hi of None \<Rightarrow> True | Some h \<Rightarrow> 0 < h)"

definition hi_dec :: "nat option \<Rightarrow> nat option" where
  "hi_dec hi = map_option (\<lambda>h. h - 1) hi"

text \<open>
  A greedy repetition takes one more character while it may, and gives the rest of the
  pattern (the continuation \<open>k\<close>) the longest run first; a lazy one tries the
  continuation first and takes one more character only when that fails. \<open>lo\<close> and \<open>hi\<close>
  count down what is still required and still allowed.
\<close>

function rep_greedy :: "flags \<Rightarrow> string \<Rightarrow> atom \<Rightarrow> nat \<Rightarrow> nat option \<Rightarrow> mstate
    \<Rightarrow> (mstate \<Rightarrow> mstate option) \<Rightarrow> mstate option" where
  "rep_greedy f text a lo hi st k =
     (if pos st < length text \<and> hi_ok hi \<and> atom_ok f a (text ! pos st)
      then (case rep_greedy f text a (lo - 1) (hi_dec hi) (MState (pos st + 1) (caps st)) k of
              Some x \<Rightarrow> Some x
            | None \<Rightarrow> if lo = 0 then k st else None)
      else if lo = 0 then k st else None)"
  by pat_completeness auto
termination
  by (relation "measure (\<lambda>(f, text, a, lo, hi, st, k). length text - pos st)") auto

function rep_lazy :: "flags \<Rightarrow> string \<Rightarrow> atom \<Rightarrow> nat \<Rightarrow> nat option \<Rightarrow> mstate
    \<Rightarrow> (mstate \<Rightarrow> mstate option) \<Rightarrow> mstate option" where
  "rep_lazy f text a lo hi st k =
     (case (if lo = 0 then k st else None) of
        Some x \<Rightarrow> Some x
      | None \<Rightarrow>
          if pos st < length text \<and> hi_ok hi \<and> atom_ok f a (text ! pos st)
          then rep_lazy f text a (lo - 1) (hi_dec hi) (MState (pos st + 1) (caps st)) k
          else None)"
  by pat_completeness auto
termination
  by (relation "measure (\<lambda>(f, text, a, lo, hi, st, k). length text - pos st)") auto

text \<open>
  The matcher, in continuation-passing style: \<open>rmatch f text r st k\<close> is the result of
  \<open>k\<close> at the first state, in the priority order of \<open>r\<close>'s alternatives, from which \<open>k\<close>
  succeeds.
\<close>

fun rmatch :: "flags \<Rightarrow> string \<Rightarrow> regex \<Rightarrow> mstate \<Rightarrow> (mstate \<Rightarrow> mstate option)
    \<Rightarrow> mstate option" where
  "rmatch f text (Atom a) st k =
     (if pos st < length text \<and> atom_ok f a (text ! pos st)
      then k (MState (pos st + 1) (caps st)) else None)"
| "rmatch f text (Str s) st k =
     (case lit f text s (pos st) of None \<Rightarrow> None | Some j \<Rightarrow> k (MState j (caps st)))"
| "rmatch f text (Seq r1 r2) st k = rmatch f text r1 st (\<lambda>st'. rmatch f text r2 st' k)"
| "rmatch f text (Alt r1 r2) st k =
     (case rmatch f text r1 st k of Some x \<Rightarrow> Some x | None \<Rightarrow> rmatch f text r2 st k)"
| "rmatch f text (Rep greedy lo hi a) st k =
     (if greedy then rep_greedy f text a lo hi st k else rep_lazy f text a lo hi st k)"
| "rmatch f text (Opt r) st k =
     (case rmatch f text r st k of Some x \<Rightarrow> Some x | None \<Rightarrow> k st)"
| "rmatch f text (Grp n r) st k =
     rmatch f text r st (\<lambda>st'. k (MState (pos st') ((n, pos st, pos st') # caps st')))"
| "rmatch f text (Look r) st k =
     (case rmatch f text r st Some of
        None \<Rightarrow> None
      | Some st' \<Rightarrow> k (MState (pos st) (caps st')))"
| "rmatch f text Bol st k = (if at_bol f text (pos st) then k st else None)"
| "rmatch f text Eol st k = (if at_eol f text (pos st) then k st else None)"
| "rmatch f text Wordb st k = (if at_wordb text (pos st) then k st else None)"

text \<open>A match object: \<open>start()\<close>, \<open>end()\<close> and the match_group spans.\<close>

datatype rematch = Match (mstart: nat) (mend: nat) (mcaps: "(nat \<times> nat \<times> nat) list")

text \<open>
  \<open>finditer\<close>: at each start offset, from left to right, the first match; the scan
  resumes where the match ended. No pattern of this program matches the empty string;
  after an empty match the model moves one character on.
\<close>

function find_from :: "flags \<Rightarrow> regex \<Rightarrow> string \<Rightarrow> nat \<Rightarrow> rematch list" where
  "find_from f r text i =
     (if length text < i then []
      else (case rmatch f text r (MState i []) Some of
              Some st' \<Rightarrow>
                Match i (pos st') (caps st') #
                  (if i < pos st' then find_from f r text (pos st')
                   else find_from f r text (i + 1))
            | None \<Rightarrow> find_from f r text (i + 1)))"
  by pat_completeness auto
termination
  by (relation "measure (\<lambda>(f, r, text, i). length text + 1 - i)") auto

definition re_finditer :: "flags \<Rightarrow> regex \<Rightarrow> string \<Rightarrow> rematch list" where
  "re_finditer f r text = find_from f r text 0"

text \<open>\<open>re.search\<close>, as the program uses it: is there a match anywhere in the text.\<close>

function search_from :: "flags \<Rightarrow> regex \<Rightarrow> string \<Rightarrow> nat \<Rightarrow> bool" where
  "search_from f r text i =
     (if length text < i then False
      else if rmatch f text r (MState i []) Some \<noteq> None then True
      else search_from f r text (i + 1))"
  by pat_completeness auto
termination
  by (relation "measure (\<lambda>(f, r, text, i). length text + 1 - i)") auto

definition re_search :: "flags \<Rightarrow> regex \<Rightarrow> string \<Rightarrow> bool" where
  "re_search f r text = search_from f r text 0"

text \<open>\<open>match.match_group(n)\<close>; every match_group read by the program takes part in every match.\<close>

definition match_group :: "string \<Rightarrow> rematch \<Rightarrow> nat \<Rightarrow> string" where
  "match_group text mt n =
     (if n = 0 then slice text (mstart mt) (mend mt)
      else (case map_of (mcaps mt) n of None \<Rightarrow> [] | Some (s, e) \<Rightarrow> slice text s e))"

text \<open>Concatenation and alternation of several patterns.\<close>

fun seqs :: "regex list \<Rightarrow> regex" where
  "seqs [] = Str []"
| "seqs [r] = r"
| "seqs (r # rs) = Seq r (seqs rs)"

fun alts :: "regex list \<Rightarrow> regex" where
  "alts [] = Str []"
| "alts [r] = r"
| "alts (r # rs) = Alt r (alts rs)"

text \<open>The classes the patterns use: \<open>\d\<close>, \<open>\s\<close>, and the quantifiers \<open>+\<close>, \<open>*\<close>, \<open>?\<close>, \<open>{n}\<close>.\<close>

definition digit :: atom where
  "digit = Cls False [Digit]"

definition space :: atom where
  "space = Cls False [Space]"

definition rplus :: "atom \<Rightarrow> regex" where
  "rplus a = Rep True 1 None a"

definition rstar :: "atom \<Rightarrow> regex" where
  "rstar a = Rep True 0 None a"

definition opt_chr :: "char \<Rightarrow> regex" where
  "opt_chr c = Rep True 0 (Some 1) (Cls False [Ch c])"

definition rtimes :: "nat \<Rightarrow> nat \<Rightarrow> atom \<Rightarrow> regex" where
  "rtimes lo hi a = Rep True lo (Some hi) a"

section \<open>Clause extraction\<close>

text \<open>\<open>src/utils/clause_extraction.py\<close>. The pattern of a clause header, with \<open>re.MULTILINE\<close>:
  \<^verbatim>\<open>^(\d+)\.\s+([A-Z][A-Z\s]*?)(?=^\d+\.|$)\<close>\<close>

definition clause_pattern :: regex where
  "clause_pattern =
     seqs [Bol, Grp 1 (rplus digit), Str ''.'', rplus space,
           Grp 2 (Seq (Atom (Cls False [Rng CHR ''A'' CHR ''Z'']))
                      (Rep False 0 None (Cls False [Rng CHR ''A'' CHR ''Z'', Space]))),
           Look (Alt (seqs [Bol, rplus digit, Str ''.'']) Eol)]"

text \<open>The pattern of a sub-clause, with \<open>re.MULTILINE\<close>:
  \<^verbatim>\<open>^(\d+\.\d+)\s+(.+?)(?=^\d+\.\d+|$)\<close>\<close>

definition subclause_pattern :: regex where
  "subclause_pattern =
     seqs [Bol, Grp 1 (seqs [rplus digit, Str ''.'', rplus digit]), rplus space,
           Grp 2 (Rep False 1 None Dot),
           Look (Alt (seqs [Bol, rplus digit, Str ''.'', rplus digit]) Eol)]"

definition MULTILINE :: flags where
  "MULTILINE = Flags False True False"

definition IGNORECASE :: flags where
  "IGNORECASE = Flags True False False"

definition NOFLAGS :: flags where
  "NOFLAGS = Flags False False False"

record subclause =
  sub_number :: string
  sub_content :: string

record clause =
  number :: string
  heading :: string
  content :: string
  full_content :: string
  subclauses :: "subclause list"

definition extract_subclauses :: "string \<Rightarrow> subclause list" where
  "extract_subclauses text =
     map (\<lambda>mt. \<lparr>sub_number = match_group text mt 1,
                 sub_content = take 200 (strip (match_group text mt 2))\<rparr>)
         (re_finditer MULTILINE subclause_pattern text)"

text \<open>The body of the loop \<open>for i, match in enumerate(matches)\<close>.\<close>

definition clause_at :: "string \<Rightarrow> rematch list \<Rightarrow> nat \<Rightarrow> clause" where
  "clause_at text matches i =
     (let mt = matches ! i;
          clause_num = match_group text mt 1;
          clause_title = strip (match_group text mt 2);
          start = mend mt;
          stop = (if i + 1 < length matches then mstart (matches ! (i + 1)) else length text);
          body = strip (slice text start stop)
      in \<lparr>number = clause_num, heading = clause_title, content = take 500 body,
          full_content = body, subclauses = extract_subclauses body\<rparr>)"

definition extract_clauses :: "string \<Rightarrow> clause list" where
  "extract_clauses text =
     (let matches = re_finditer MULTILINE clause_pattern text
      in map (clause_at text matches) [0..<length matches])"

text \<open>The pattern of a definition, with \<open>re.IGNORECASE\<close>:
  \<^verbatim>\<open>"([^"]+)"\s*(?:means|is|shall|refers to)\s*([^.]+\.)\<close>\<close>

definition definition_pattern :: regex where
  "definition_pattern =
     seqs [Str [CHR 0x22], Grp 1 (rplus (Cls True [Ch (CHR 0x22)])), Str [CHR 0x22],
           rstar space,
           alts [Str ''means'', Str ''is'', Str ''shall'', Str ''refers to''],
           rstar space,
           Grp 2 (Seq (rplus (Cls True [Ch CHR ''.''])) (Str ''.''))]"

text \<open>The dictionary is a map; a later match of the same term overwrites the earlier.\<close>

definition extract_definitions :: "string \<Rightarrow> (string \<rightharpoonup> string)" where
  "extract_definitions text =
     fold (\<lambda>mt definitions.
             definitions(strip (match_group text mt 1) \<mapsto> strip (match_group text mt 2)))
          (re_finditer IGNORECASE definition_pattern text) Map.empty"

section \<open>Entity extraction\<close>

text \<open>
  \<open>src/utils/ner.py\<close>. \<open>list(set(xs))\<close> keeps one copy of each element, in an order Python
  does not specify; the model keeps the order of first occurrence.
\<close>

definition list_set :: "'a list \<Rightarrow> 'a list" where
  "list_set xs = first_occurrences xs"

definition matched :: "flags \<Rightarrow> regex \<Rightarrow> string \<Rightarrow> string list" where
  "matched f r text = map (\<lambda>mt. match_group text mt 0) (re_finditer f r text)"

definition month_names :: "string list" where
  "month_names = [''January'', ''February'', ''March'', ''April'', ''May'', ''June'', ''July'',
     ''August'', ''September'', ''October'', ''November'', ''December'']"

text \<open>\<^verbatim>\<open>\b\d{1,2}/\d{1,2}/\d{4}\b\<close>,
  \<^verbatim>\<open>\b(January|...|December)\s+\d{1,2},?\s+\d{4}\b\<close>,
  \<^verbatim>\<open>\b\d{4}-\d{1,2}-\d{1,2}\b\<close>\<close>

definition date_patterns :: "regex list" where
  "date_patterns =
     [seqs [Wordb, rtimes 1 2 digit, Str ''/'', rtimes 1 2 digit, Str ''/'', rtimes 4 4 digit, Wordb],
      seqs [Wordb, Grp 1 (alts (map Str month_names)), rplus space, rtimes 1 2 digit,
            opt_chr CHR '','', rplus space, rtimes 4 4 digit, Wordb],
      seqs [Wordb, rtimes 4 4 digit, Str ''-'', rtimes 1 2 digit, Str ''-'', rtimes 1 2 digit, Wordb]]"

definition extract_dates :: "string \<Rightarrow> string list" where
  "extract_dates text = list_set (concat (map (\<lambda>p. matched IGNORECASE p text) date_patterns))"

text \<open>\<^verbatim>\<open>\$[\d,]+(?:\.\d{2})?|\b(?:USD|dollars?|euros?|cents?|pounds?)\s*[\d,]+(?:\.\d{2})?\<close>
  and \<^verbatim>\<open>\b\d+(?:\.\d{1,2})?\s*%\<close>\<close>

definition currency_pattern :: regex where
  "currency_pattern =
     Alt (seqs [Str ''$'', rplus (Cls False [Digit, Ch CHR '','']),
                Opt (Seq (Str ''.'') (rtimes 2 2 digit))])
         (seqs [Wordb,
                alts [Str ''USD'', Seq (Str ''dollar'') (opt_chr CHR ''s''),
                      Seq (Str ''euro'') (opt_chr CHR ''s''), Seq (Str ''cent'') (opt_chr CHR ''s''),
                      Seq (Str ''pound'') (opt_chr CHR ''s'')],
                rstar space, rplus (Cls False [Digit, Ch CHR '','']),
                Opt (Seq (Str ''.'') (rtimes 2 2 digit))])"

definition percentage_pattern :: regex where
  "percentage_pattern =
     seqs [Wordb, rplus digit, Opt (Seq (Str ''.'') (rtimes 1 2 digit)), rstar space, Str ''%'']"

definition extract_amounts :: "string \<Rightarrow> (string \<times> string) list" where
  "extract_amounts text =
     map (\<lambda>s. (s, ''Currency'')) (matched IGNORECASE currency_pattern text)
     @ map (\<lambda>s. (s, ''Percentage'')) (matched NOFLAGS percentage_pattern text)"

definition states :: "string list" where
  "states = [''Alabama'', ''Alaska'', ''Arizona'', ''Arkansas'', ''California'', ''Colorado'',
     ''Connecticut'', ''Delaware'', ''Florida'', ''Georgia'', ''Hawaii'', ''Idaho'',
     ''Illinois'', ''Indiana'', ''Iowa'', ''Kansas'', ''Kentucky'', ''Louisiana'',
     ''Maine'', ''Maryland'', ''Massachusetts'', ''Michigan'', ''Minnesota'',
     ''Mississippi'', ''Missouri'', ''Montana'', ''Nebraska'', ''Nevada'',
     ''New Hampshire'', ''New Jersey'', ''New Mexico'', ''New York'',
     ''North Carolina'', ''North Dakota'', ''Ohio'', ''Oklahoma'', ''Oregon'',
     ''Pennsylvania'', ''Rhode Island'', ''South Carolina'', ''South Dakota'',
     ''Tennessee'', ''Texas'', ''Utah'', ''Vermont'', ''Virginia'', ''Washington'',
     ''West Virginia'', ''Wisconsin'', ''Wyoming'']"

definition countries :: "string list" where
  "countries = [''United States'', ''United Kingdom'', ''Canada'', ''Australia'', ''India'']"

text \<open>\<^verbatim>\<open>re.search(rf'\b{state}\b', text, re.IGNORECASE)\<close>\<close>

definition named_in :: "string \<Rightarrow> string \<Rightarrow> bool" where
  "named_in text name = re_search IGNORECASE (seqs [Wordb, Str name, Wordb]) text"

definition extract_jurisdictions :: "string \<Rightarrow> string list" where
  "extract_jurisdictions text =
     list_set (filter (named_in text) states @ filter (named_in text) countries)"

text \<open>\<^verbatim>\<open>\b[A-Za-z0-9._%+-]+@[A-Za-z0-9.-]+\.[A-Z|a-z]{2,}\b\<close>\<close>

definition email_pattern :: regex where
  "email_pattern =
     seqs [Wordb,
           rplus (Cls False [Rng CHR ''A'' CHR ''Z'', Rng CHR ''a'' CHR ''z'', Rng CHR ''0'' CHR ''9'',
                             Ch CHR ''.'', Ch CHR ''_'', Ch CHR ''%'', Ch CHR ''+'', Ch CHR ''-'']),
           Str ''@'',
           rplus (Cls False [Rng CHR ''A'' CHR ''Z'', Rng CHR ''a'' CHR ''z'', Rng CHR ''0'' CHR ''9'',
                             Ch CHR ''.'', Ch CHR ''-'']),
           Str ''.'',
           Rep True 2 None (Cls False [Rng CHR ''A'' CHR ''Z'', Ch CHR ''|'', Rng CHR ''a'' CHR ''z'']),
           Wordb]"

definition extract_emails :: "string \<Rightarrow> string list" where
  "extract_emails text = list_set (matched NOFLAGS email_pattern text)"

text \<open>\<^verbatim>\<open>\b\d{3}-\d{3}-\d{4}\b\<close>, \<^verbatim>\<open>\b\(\d{3}\)\s*\d{3}-\d{4}\b\<close>, \<^verbatim>\<open>\b\d{10}\b\<close>\<close>

definition phone_patterns :: "regex list" where
  "phone_patterns =
     [seqs [Wordb, rtimes 3 3 digit, Str ''-'', rtimes 3 3 digit, Str ''-'', rtimes 4 4 digit, Wordb],
      seqs [Wordb, Str ''('', rtimes 3 3 digit, Str '')'', rstar space, rtimes 3 3 digit, Str ''-'',
            rtimes 4 4 digit, Wordb],
      seqs [Wordb, rtimes 10 10 digit, Wordb]]"

definition extract_phone_numbers :: "string \<Rightarrow> string list" where
  "extract_phone_numbers text =
     list_set (concat (map (\<lambda>p. matched NOFLAGS p text) phone_patterns))"

text \<open>\<^verbatim>\<open>https?://[^\s]+\<close>\<close>

definition url_pattern :: regex where
  "url_pattern = seqs [Str ''http'', opt_chr CHR ''s'', Str ''://'', rplus (Cls True [Space])]"

definition extract_urls :: "string \<Rightarrow> string list" where
  "extract_urls text = list_set (matched NOFLAGS url_pattern text)"

text \<open>\<^verbatim>\<open>(?:between|party|parties|Inc\.|LLC|Corp|Corporation|Company|by\s+and\s+between)\s+([A-Z][A-Za-z\s&,]+?)(?:,|\.|\s+and\s+)\<close>
  with \<open>re.IGNORECASE\<close>\<close>

definition party_pattern :: regex where
  "party_pattern =
     seqs [alts [Str ''between'', Str ''party'', Str ''parties'', Str ''Inc.'', Str ''LLC'',
                 Str ''Corp'', Str ''Corporation'', Str ''Company'',
                 seqs [Str ''by'', rplus space, Str ''and'', rplus space, Str ''between'']],
           rplus space,
           Grp 1 (Seq (Atom (Cls False [Rng CHR ''A'' CHR ''Z'']))
                      (Rep False 1 None
                         (Cls False [Rng CHR ''A'' CHR ''Z'', Rng CHR ''a'' CHR ''z'', Space,
                                     Ch CHR ''&'', Ch CHR '',''])))  ,
           alts [Str '','', Str ''.'', seqs [rplus space, Str ''and'', rplus space]]]"

definition extract_parties :: "string \<Rightarrow> string list" where
  "extract_parties text =
     list_set
       (filter (\<lambda>party. length party > 2)
          (map (\<lambda>mt. rstrip_chars '',.'' (strip (match_group text mt 1)))
               (re_finditer IGNORECASE party_pattern text)))"

record entities =
  parties :: "string list"
  dates :: "string list"
  amounts :: "(string \<times> string) list"
  jurisdictions :: "string list"
  emails :: "string list"
  phone_numbers :: "string list"
  urls :: "string list"

text \<open>Every key of \<open>self.entities\<close> is assigned anew, so the result depends on the text only.\<close>

definition extract_entities :: "string \<Rightarrow> entities" where
  "extract_entities text =
     \<lparr>parties = extract_parties text,
      dates = extract_dates text,
      amounts = extract_amounts text,
      jurisdictions = extract_jurisdictions text,
      emails = extract_emails text,
      phone_numbers = extract_phone_numbers text,
      urls = extract_urls text\<rparr>"

section \<open>Risk detection\<close>

text \<open>
  \<open>src/utils/risk_detection.py\<close>. A risk finding is the dictionary built in
  \<open>RiskDetectionEngine.detect_risks\<close>: five fields, the risk level kept as the string
  the source stores.
\<close>

record risk =
  rtype :: string
  risk_level :: string
  description :: string
  evidence :: string
  severity_score :: int

text \<open>An entry of \<open>RISK_PATTERNS\<close>; the table in the order of the source.\<close>

record risk_info =
  info_keywords :: "string list"
  info_level :: string
  info_description :: string

definition RISK_PATTERNS :: "(string \<times> risk_info) list" where
  "RISK_PATTERNS =
    [(''Penalty Clauses'',
        \<lparr>info_keywords = [''penalty'', ''fine'', ''damages'', ''liquidated'', ''breach'', ''indemnify''],
         info_level = ''high'', info_description = ''Clauses imposing penalties for breach''\<rparr>),
     (''Indemnity Clauses'',
        \<lparr>info_keywords = [''indemnify'', ''indemnification'', ''hold harmless'', ''defending'', ''liability''],
         info_level = ''high'', info_description = ''Clauses requiring indemnification''\<rparr>),
     (''Termination Clauses'',
        \<lparr>info_keywords = [''termination'', ''terminate'', ''terminate for cause'', ''terminate without cause''],
         info_level = ''medium'', info_description = ''Clauses specifying termination rights''\<rparr>),
     (''Lock-in Period'',
        \<lparr>info_keywords = [''lock'', ''lock-in'', ''locked in'', ''exclusive'', ''no exit'', ''cannot terminate''],
         info_level = ''high'', info_description = ''Clauses restricting early termination''\<rparr>),
     (''Auto-Renewal'',
        \<lparr>info_keywords = [''auto-renewal'', ''automatic renewal'', ''renew'', ''unless notice'', ''renewal''],
         info_level = ''medium'', info_description = ''Clauses with automatic renewal''\<rparr>),
     (''Arbitration'',
        \<lparr>info_keywords = [''arbitration'', ''arbitrator'', ''binding arbitration'', ''arbitrate''],
         info_level = ''medium'', info_description = ''Arbitration dispute resolution clauses''\<rparr>),
     (''Intellectual Property'',
        \<lparr>info_keywords = [''intellectual property'', ''patent'', ''copyright'', ''trademark'', ''ip'',
                     ''proprietary'', ''work made for hire''],
         info_level = ''high'', info_description = ''IP assignment and ownership clauses''\<rparr>),
     (''Confidentiality'',
        \<lparr>info_keywords = [''confidential'', ''confidentiality'', ''nda'', ''non-disclosure'', ''proprietary''],
         info_level = ''medium'', info_description = ''Confidentiality and NDA clauses''\<rparr>),
     (''Limitation of Liability'',
        \<lparr>info_keywords = [''limitation of liability'', ''limit of liability'', ''liable'', ''not liable'',
                     ''exclude''],
         info_level = ''medium'', info_description = ''Clauses limiting liability''\<rparr>),
     (''Non-Competition'',
        \<lparr>info_keywords = [''non-compete'', ''non-competition'', ''compete'', ''competitor'',
                     ''restrictive covenant''],
         info_level = ''high'',
         info_description = ''Non-compete and restrictive covenant clauses''\<rparr>)]"

text \<open>The pattern of \<open>_find_sentence_with_keyword\<close>, with \<open>re.IGNORECASE | re.DOTALL\<close>:
  \<^verbatim>\<open>.{0,context_window}[^.!?]*?keyword[^.!?]*?[.!?]\<close> (the keyword escaped, so literal).\<close>

definition terminator :: "item list" where
  "terminator = [Ch CHR ''.'', Ch CHR ''!'', Ch CHR ''?'']"

definition sentence_pattern :: "string \<Rightarrow> nat \<Rightarrow> regex" where
  "sentence_pattern keyword context_window =
     seqs [Rep True 0 (Some context_window) Dot,
           Rep False 0 None (Cls True terminator),
           Str keyword,
           Rep False 0 None (Cls True terminator),
           Atom (Cls False terminator)]"

definition IGNORECASE_DOTALL :: flags where
  "IGNORECASE_DOTALL = Flags True False True"

definition find_sentence_with_keyword :: "string \<Rightarrow> string \<Rightarrow> nat \<Rightarrow> string list" where
  "find_sentence_with_keyword text keyword context_window =
     take 3
       (map (take 300)
          (filter (\<lambda>sentence. sentence \<noteq> [])
             (map (\<lambda>mt. strip (match_group text mt 0))
                (re_finditer IGNORECASE_DOTALL (sentence_pattern keyword context_window) text))))"

text \<open>\<open>scores.get(risk_level, 50)\<close>\<close>

definition assign_severity_score :: "string \<Rightarrow> int" where
  "assign_severity_score lvl =
     (if lvl = ''low'' then 25 else if lvl = ''medium'' then 55
      else if lvl = ''high'' then 85 else 50)"

definition make_risk :: "string \<Rightarrow> risk_info \<Rightarrow> string \<Rightarrow> risk" where
  "make_risk risk_type info sentence =
     \<lparr>rtype = risk_type, risk_level = info_level info, description = info_description info,
      evidence = take 200 sentence, severity_score = assign_severity_score (info_level info)\<rparr>"

text \<open>The loop over the sentences: a finding is appended unless an equal one is there.\<close>

fun add_risks :: "string \<Rightarrow> risk_info \<Rightarrow> string list \<Rightarrow> risk list \<Rightarrow> risk list" where
  "add_risks risk_type info [] detected = detected"
| "add_risks risk_type info (sentence # sentences) detected =
     (let r = make_risk risk_type info sentence
      in add_risks risk_type info sentences
           (if r \<in> set detected then detected else detected @ [r]))"

text \<open>The loop over the keywords of one risk type, left at the first keyword found.\<close>

fun scan_keywords :: "string \<Rightarrow> string \<Rightarrow> string \<Rightarrow> risk_info \<Rightarrow> string list
    \<Rightarrow> risk list \<Rightarrow> risk list" where
  "scan_keywords text text_lower risk_type info [] detected = detected"
| "scan_keywords text text_lower risk_type info (keyword # others) detected =
     (if str_contains text_lower keyword
      then add_risks risk_type info (find_sentence_with_keyword text keyword 150) detected
      else scan_keywords text text_lower risk_type info others detected)"

text \<open>The loop over the risk types.\<close>

fun scan_types :: "string \<Rightarrow> string \<Rightarrow> (string \<times> risk_info) list \<Rightarrow> risk list \<Rightarrow> risk list" where
  "scan_types text text_lower [] detected = detected"
| "scan_types text text_lower ((risk_type, info) # others) detected =
     scan_types text text_lower others
       (scan_keywords text text_lower risk_type info (info_keywords info) detected)"

definition detect_risks :: "string \<Rightarrow> risk list" where
  "detect_risks text = scan_types text (lower text) RISK_PATTERNS []"

text \<open>\<open>sum(1 for r in detected_risks if r["risk_level"] == lvl)\<close>\<close>

definition level_count :: "string \<Rightarrow> risk list \<Rightarrow> int" where
  "level_count lvl rs = int (length (filter (\<lambda>r. risk_level r = lvl) rs))"

text \<open>
  \<open>calculate_risk_score\<close>: the early return on an empty list, the weighted sum divided
  (floor division) by \<open>max(1, len(detected_risks))\<close>, the clamp and the three bands.
\<close>

definition risk_category :: "int \<Rightarrow> string" where
  "risk_category score =
     (if score \<ge> 70 then ''High Risk''
      else if score \<ge> 40 then ''Medium Risk''
      else ''Low Risk'')"

definition calculate_risk_score :: "risk list \<Rightarrow> int \<times> string" where
  "calculate_risk_score detected_risks =
     (if detected_risks = [] then (0, ''Low Risk'')
      else
        let high_count = level_count ''high'' detected_risks;
            medium_count = level_count ''medium'' detected_risks;
            low_count = level_count ''low'' detected_risks;
            score = (high_count * 30 + medium_count * 15 + low_count * 5)
                      div max 1 (int (length detected_risks));
            score = min 100 score
        in (score, risk_category score))"

section \<open>Contract classification\<close>

text \<open>
  \<open>src/utils/contract_classifier.py\<close>. The table \<open>CLASSIFICATION_PATTERNS\<close> in the order
  of the source: the name, the keywords and \<open>min_matches\<close>.
\<close>

definition CLASSIFICATION_PATTERNS :: "(string \<times> string list \<times> nat) list" where
  "CLASSIFICATION_PATTERNS =
    [(''Employment'',
        [''employment'', ''employee'', ''employer'', ''salary'', ''compensation'', ''work'',
         ''position'', ''job''], 3),
     (''Lease'',
        [''lease'', ''landlord'', ''tenant'', ''rent'', ''property'', ''premises'', ''leaseholder''], 2),
     (''Service Agreement'',
        [''service'', ''services'', ''service provider'', ''contractor'', ''engagement'', ''work''], 3),
     (''Vendor'',
        [''vendor'', ''supplier'', ''supply'', ''purchasing'', ''goods'', ''material''], 2),
     (''Partnership'',
        [''partnership'', ''partner'', ''joint venture'', ''co-founder'', ''equity'', ''profit'',
         ''loss''], 2),
     (''NDA'',
        [''non-disclosure'', ''nda'', ''confidential'', ''confidentiality agreement'',
         ''proprietary''], 2),
     (''License Agreement'',
        [''license'', ''licensed'', ''licensor'', ''licensee'', ''intellectual property'', ''ip''], 2),
     (''Loan Agreement'',
        [''loan'', ''lender'', ''borrower'', ''principal'', ''interest'', ''repayment'', ''debt''], 3)]"

text \<open>The inner loop: \<open>matches += 1\<close> for each keyword found in the lower-cased text.\<close>

fun count_matches :: "string \<Rightarrow> string list \<Rightarrow> nat \<Rightarrow> nat" where
  "count_matches text_lower [] matches = matches"
| "count_matches text_lower (keyword # others) matches =
     count_matches text_lower others
       (if str_contains text_lower keyword then matches + 1 else matches)"

text \<open>
  The outer loop fills the dictionary \<open>scores\<close>; its keys are set once each, so the
  dictionary is the list of its entries in insertion order.
\<close>

fun score_types :: "string \<Rightarrow> (string \<times> string list \<times> nat) list \<Rightarrow> (string \<times> nat) list
    \<Rightarrow> (string \<times> nat) list" where
  "score_types text_lower [] scores = scores"
| "score_types text_lower ((contract_type, kws, min_matches) # others) scores =
     (let matches = count_matches text_lower kws 0
      in score_types text_lower others
           (if matches \<ge> min_matches then scores @ [(contract_type, matches)] else scores))"

text \<open>
  \<open>max(scores, key=scores.get)\<close> on a dictionary that is not empty: the keys are read in
  insertion order and a later key replaces the best one only with a greater value.
\<close>

fun max_key_from :: "(string \<times> nat) \<Rightarrow> (string \<times> nat) list \<Rightarrow> string \<times> nat" where
  "max_key_from best [] = best"
| "max_key_from best (kv # others) =
     max_key_from (if snd kv > snd best then kv else best) others"

text \<open>
  The confidence is computed in binary floating point: \<open>scores[primary_type] / 10\<close> is the
  quotient of two integers rounded to the nearest double, and the product with 100 is
  rounded again. A double is modelled by the rational number it stands for;
  \<open>dbl_round\<close> rounds a rational in the normal range (none of the values here is
  subnormal or overflows) to the nearest double, ties to the even mantissa.
\<close>

definition round_half_even :: "rat \<Rightarrow> int" where
  "round_half_even x =
     (let n = \<lfloor>x\<rfloor>; d = x - of_int n
      in if d < 1 / 2 then n else if d > 1 / 2 then n + 1 else if even n then n else n + 1)"

definition pow2 :: "int \<Rightarrow> rat" where
  "pow2 e = (if 0 \<le> e then 2 ^ nat e else 1 / 2 ^ nat (- e))"

text \<open>The number of binary digits of a natural number.\<close>

fun bits :: "nat \<Rightarrow> nat" where
  "bits n = (if n = 0 then 0 else Suc (bits (n div 2)))"

text \<open>For \<open>x > 0\<close>, the exponent \<open>e\<close> with \<open>2 ^ e \<le> x < 2 ^ (e + 1)\<close>.\<close>

definition ilog2 :: "rat \<Rightarrow> int" where
  "ilog2 x =
     (if 1 \<le> x then int (bits (nat \<lfloor>x\<rfloor>)) - 1
      else - int (bits (nat (\<lceil>1 / x\<rceil> - 1))))"

definition dbl_round :: "rat \<Rightarrow> rat" where
  "dbl_round x =
     (if x = 0 then 0
      else if x < 0 then - (let s = pow2 (52 - ilog2 (- x)) in of_int (round_half_even (- x * s)) / s)
      else (let s = pow2 (52 - ilog2 x) in of_int (round_half_even (x * s)) / s))"

text \<open>\<open>min(100, (scores[primary_type] / 10) * 100)\<close>\<close>

definition confidence_of :: "nat \<Rightarrow> rat" where
  "confidence_of matches = min 100 (dbl_round (dbl_round (of_nat matches / 10) * 100))"

definition get_type_description :: "string \<Rightarrow> string" where
  "get_type_description contract_type =
     (case map_of
        [(''Employment'', ''Agreement between employer and employee defining terms of work''),
         (''Lease'', ''Agreement for renting property or equipment''),
         (''Service Agreement'', ''Contract for provision of services''),
         (''Vendor'', ''Agreement for supply of goods or services from a vendor''),
         (''Partnership'', ''Agreement establishing partnership between parties''),
         (''NDA'', ''Non-disclosure agreement protecting confidential information''),
         (''License Agreement'', ''Agreement granting rights to use intellectual property''),
         (''Loan Agreement'', ''Agreement for borrowing and repayment of funds''),
         (''General Contract'', ''Contract of unknown type'')] contract_type of
        Some d \<Rightarrow> d
      | None \<Rightarrow> ''Contract of unknown type'')"

record classification =
  primary_type :: string
  confidence :: rat
  all_matches :: "(string \<times> nat) list"
  type_description :: string

definition classify_contract :: "string \<Rightarrow> classification" where
  "classify_contract text =
     (let text_lower = lower text;
          scores = score_types text_lower CLASSIFICATION_PATTERNS []
      in case scores of
           [] \<Rightarrow> \<lparr>primary_type = ''General Contract'', confidence = 0, all_matches = scores,
                  type_description = get_type_description ''General Contract''\<rparr>
         | kv # others \<Rightarrow>
             (let best = max_key_from kv others
              in \<lparr>primary_type = fst best, confidence = confidence_of (snd best),
                  all_matches = scores, type_description = get_type_description (fst best)\<rparr>))"

section \<open>Notions used in the statements\<close>

text \<open>The number of distinct keywords of a list that occur in the lower-cased text.\<close>

definition distinct_keywords_present :: "string \<Rightarrow> string list \<Rightarrow> nat" where
  "distinct_keywords_present text kws = card {kw \<in> set kws. str_contains (lower text) kw}"

text \<open>
  What one risk type contributes: the findings for the sentences of its first keyword
  that occurs in the lower-cased text.
\<close>

definition first_hit :: "string \<Rightarrow> string \<Rightarrow> risk_info \<Rightarrow> risk list" where
  "first_hit text risk_type info =
     (case find (str_contains (lower text)) (info_keywords info) of
        None \<Rightarrow> []
      | Some keyword \<Rightarrow>
          map (make_risk risk_type info) (find_sentence_with_keyword text keyword 150))"

text \<open>
  The characters that end a sentence, an occurrence of a keyword at an offset of the text
  whatever the case of the letters, and a span \<open>[s, e)\<close> of the text that the detector takes
  as a sentence with the keyword: at most 150 characters of context, then no terminator up
  to an occurrence of the keyword, and after it no terminator before the one that ends the
  span.
\<close>

definition is_terminator :: "char \<Rightarrow> bool" where
  "is_terminator c = (c = CHR ''.'' \<or> c = CHR ''!'' \<or> c = CHR ''?'')"

definition occurs_at :: "string \<Rightarrow> string \<Rightarrow> nat \<Rightarrow> bool" where
  "occurs_at tx keyword k =
     (k + length keyword \<le> length tx \<and> lower (slice tx k (k + length keyword)) = lower keyword)"

definition sentence_span :: "string \<Rightarrow> string \<Rightarrow> nat \<Rightarrow> nat \<Rightarrow> bool" where
  "sentence_span tx keyword s e =
     (\<exists>a k. s \<le> a \<and> a \<le> s + 150 \<and> a \<le> k \<and> k + length keyword < e \<and> e \<le> length tx
        \<and> list_all (\<lambda>c. \<not> is_terminator c) (slice tx a k)
        \<and> occurs_at tx keyword k
        \<and> list_all (\<lambda>c. \<not> is_terminator c) (slice tx (k + length keyword) (e - 1))
        \<and> is_terminator (tx ! (e - 1)))"

text \<open>Matches in the order of the text, none starting before the end of the one before.\<close>

definition in_order :: "rematch list \<Rightarrow> bool" where
  "in_order ms = sorted_wrt (\<lambda>a b. mend a \<le> mstart b \<and> mstart a < mstart b) ms"

text \<open>
  A clause header in the text: \<open>s\<close> is the start of a line, \<open>[s, d)\<close> are digits, \<open>d\<close> holds
  the period, \<open>[d + 1, w)\<close> is white space (at least one character), \<open>w\<close> holds an
  upper-case letter, \<open>(w, e)\<close> holds upper-case letters and white space other than a
  newline, and \<open>e\<close> is the end of a line.
\<close>

definition line_start :: "string \<Rightarrow> nat \<Rightarrow> bool" where
  "line_start tx i = (i = 0 \<or> (i \<le> length tx \<and> tx ! (i - 1) = CHR 0x0A))"

definition line_end :: "string \<Rightarrow> nat \<Rightarrow> bool" where
  "line_end tx i = (i = length tx \<or> (i < length tx \<and> tx ! i = CHR 0x0A))"

definition clause_header :: "string \<Rightarrow> nat \<Rightarrow> nat \<Rightarrow> nat \<Rightarrow> nat \<Rightarrow> bool" where
  "clause_header tx s d w e =
     (line_start tx s \<and> s < d \<and> d + 1 < w \<and> w < e \<and> e \<le> length tx
      \<and> list_all is_digit (slice tx s d)
      \<and> tx ! d = CHR ''.''
      \<and> list_all is_space (slice tx (d + 1) w)
      \<and> is_upper (tx ! w)
      \<and> list_all (\<lambda>c. (is_upper c \<or> is_space c) \<and> c \<noteq> CHR 0x0A) (slice tx (w + 1) e)
      \<and> line_end tx e)"

text \<open>
  A definition in the text: \<open>s\<close> and \<open>c\<close> hold double quotes with a non-empty text without
  double quote between them, \<open>[c + 1, u)\<close> is white space (possibly none), a trigger word
  occupies \<open>[u, t)\<close> whatever the case of its letters, \<open>[t, e - 1)\<close> is a non-empty text
  without period and \<open>e - 1\<close> holds a period.
\<close>

definition triggers :: "string list" where
  "triggers = [''means'', ''is'', ''shall'', ''refers to'']"

definition definition_match :: "string \<Rightarrow> nat \<Rightarrow> nat \<Rightarrow> nat \<Rightarrow> nat \<Rightarrow> nat \<Rightarrow> bool" where
  "definition_match tx s c u t e =
     (s + 1 < c \<and> c < u \<and> t + 1 < e \<and> e \<le> length tx
      \<and> tx ! s = CHR 0x22
      \<and> list_all (\<lambda>x. x \<noteq> CHR 0x22) (slice tx (s + 1) c)
      \<and> tx ! c = CHR 0x22
      \<and> list_all is_space (slice tx (c + 1) u)
      \<and> list_ex (\<lambda>w. occurs_at tx w u \<and> t = u + length w) triggers
      \<and> list_all (\<lambda>x. x \<noteq> CHR ''.'') (slice tx t (e - 1))
      \<and> tx ! (e - 1) = CHR ''.'')"

text \<open>
  Three texts with definitions: \<^verbatim>\<open>"a" is "b" is c.\<close>, \<^verbatim>\<open>"A" means.\<close> and
  \<^verbatim>\<open>"A" is b.\<close>
\<close>

definition nested_text :: string where
  "nested_text = CHR 0x22 # ''a'' @ CHR 0x22 # '' is '' @ CHR 0x22 # ''b'' @ CHR 0x22 # '' is c.''"

definition bare_text :: string where
  "bare_text = CHR 0x22 # ''A'' @ CHR 0x22 # '' means.''"

definition plain_text :: string where
  "plain_text = CHR 0x22 # ''A'' @ CHR 0x22 # '' is b.''"

text \<open>
  The matcher as a list: \<open>cands f text r st\<close> lists, in the priority order of the
  backtracking search, the states in which a match of \<open>r\<close> from \<open>st\<close> can end;
  \<open>run\<close> is the length of the longest run of a class from an offset (capped by the upper
  bound of the repetition) and \<open>first_some\<close> the first success of a continuation over a
  list.
\<close>

fun first_some :: "('a \<Rightarrow> 'b option) \<Rightarrow> 'a list \<Rightarrow> 'b option" where
  "first_some k [] = None"
| "first_some k (x # xs) = (case k x of Some y \<Rightarrow> Some y | None \<Rightarrow> first_some k xs)"

function run :: "flags \<Rightarrow> string \<Rightarrow> atom \<Rightarrow> nat option \<Rightarrow> nat \<Rightarrow> nat" where
  "run f tx a hi i =
     (if i < length tx \<and> hi_ok hi \<and> atom_ok f a (tx ! i)
      then Suc (run f tx a (hi_dec hi) (i + 1)) else 0)"
  by pat_completeness auto
termination
  by (relation "measure (\<lambda>(f, tx, a, hi, i). length tx - i)") auto

declare run.simps [simp del]

fun cands :: "flags \<Rightarrow> string \<Rightarrow> regex \<Rightarrow> mstate \<Rightarrow> mstate list" where
  "cands f tx (Atom a) st =
     (if pos st < length tx \<and> atom_ok f a (tx ! pos st)
      then [MState (pos st + 1) (caps st)] else [])"
| "cands f tx (Str s) st =
     (case lit f tx s (pos st) of None \<Rightarrow> [] | Some j \<Rightarrow> [MState j (caps st)])"
| "cands f tx (Seq r1 r2) st = concat (map (cands f tx r2) (cands f tx r1 st))"
| "cands f tx (Alt r1 r2) st = cands f tx r1 st @ cands f tx r2 st"
| "cands f tx (Rep greedy lo hi a) st =
     map (\<lambda>n. MState (pos st + n) (caps st))
       (if greedy then rev [lo..<Suc (run f tx a hi (pos st))]
        else [lo..<Suc (run f tx a hi (pos st))])"
| "cands f tx (Opt r) st = cands f tx r st @ [st]"
| "cands f tx (Grp n r) st =
     map (\<lambda>st'. MState (pos st') ((n, pos st, pos st') # caps st')) (cands f tx r st)"
| "cands f tx (Look r) st =
     (case cands f tx r st of [] \<Rightarrow> [] | st' # _ \<Rightarrow> [MState (pos st) (caps st')])"
| "cands f tx Bol st = (if at_bol f tx (pos st) then [st] else [])"
| "cands f tx Eol st = (if at_eol f tx (pos st) then [st] else [])"
| "cands f tx Wordb st = (if at_wordb tx (pos st) then [st] else [])"

text \<open>Parts of the clause pattern and of the definition pattern, named for the proofs.\<close>

definition upper_cls :: atom where
  "upper_cls = Cls False [Rng CHR ''A'' CHR ''Z'']"

definition heading_cls :: atom where
  "heading_cls = Cls False [Rng CHR ''A'' CHR ''Z'', Space]"

definition next_header :: regex where
  "next_header = Seq Bol (Seq (rplus digit) (Str ''.''))"

definition header_start :: "string \<Rightarrow> nat \<Rightarrow> bool" where
  "header_start tx e =
     (at_bol MULTILINE tx e \<and> 1 \<le> run MULTILINE tx digit None e
      \<and> e + run MULTILINE tx digit None e < length tx
      \<and> tx ! (e + run MULTILINE tx digit None e) = CHR ''.'')"

definition look_ok :: "string \<Rightarrow> nat \<Rightarrow> bool" where
  "look_ok tx e = (header_start tx e \<or> at_eol MULTILINE tx e)"

definition not_quote :: atom where
  "not_quote = Cls True [Ch (CHR 0x22)]"

definition not_period :: atom where
  "not_period = Cls True [Ch CHR ''.'']"

text \<open>The text of the scenario of the specification.\<close>

definition scenario_text :: string where
  "scenario_text =
     ''1. TERMINATION\<newline>This agreement may be terminated with 30 days notice.\<newline>'' @
     ''2. CONFIDENTIALITY\<newline>All information is confidential.''"

section \<open>Evaluation rules\<close>

text \<open>
  The character functions on a character given by its bits, the ranges the patterns use,
  and the rule sets with which the simplifier runs the matcher on a concrete text.
\<close>

lemma is_upper_Char:
  "is_upper (Char b0 b1 b2 b3 b4 b5 b6 b7) =
     (\<not> b7 \<and> b6 \<and> \<not> b5 \<and> (b0 \<or> b1 \<or> b2 \<or> b3 \<or> b4) \<and> \<not> (b4 \<and> b3 \<and> (b2 \<or> (b1 \<and> b0))))"
  by (cases b0; cases b1; cases b2; cases b3; cases b4; cases b5; cases b6; cases b7; simp add: is_upper_def)

lemma is_lower_Char:
  "is_lower (Char b0 b1 b2 b3 b4 b5 b6 b7) =
     (\<not> b7 \<and> b6 \<and> b5 \<and> (b0 \<or> b1 \<or> b2 \<or> b3 \<or> b4) \<and> \<not> (b4 \<and> b3 \<and> (b2 \<or> (b1 \<and> b0))))"
  by (cases b0; cases b1; cases b2; cases b3; cases b4; cases b5; cases b6; cases b7; simp add: is_lower_def)

lemma is_digit_Char:
  "is_digit (Char b0 b1 b2 b3 b4 b5 b6 b7) =
     (\<not> b7 \<and> \<not> b6 \<and> b5 \<and> b4 \<and> \<not> (b3 \<and> (b2 \<or> b1)))"
  by (cases b0; cases b1; cases b2; cases b3; cases b4; cases b5; cases b6; cases b7; simp add: is_digit_def)

lemma is_space_Char:
  "is_space (Char b0 b1 b2 b3 b4 b5 b6 b7) =
     (if b7 then \<not> b6 \<and> \<not> b4 \<and> \<not> b3 \<and> \<not> b1
                  \<and> ((b5 \<and> \<not> b2 \<and> \<not> b0) \<or> (\<not> b5 \<and> b2 \<and> b0))
      else \<not> b6 \<and>
       ((b5 \<and> \<not> b4 \<and> \<not> b3 \<and> \<not> b2 \<and> \<not> b1 \<and> \<not> b0)
        \<or> (\<not> b5 \<and> b4 \<and> b3 \<and> b2)
        \<or> (\<not> b5 \<and> \<not> b4 \<and> b3 \<and> ((\<not> b2 \<and> (b1 \<or> b0)) \<or> (b2 \<and> \<not> b1)))))"
  by (cases b0; cases b1; cases b2; cases b3; cases b4; cases b5; cases b6; cases b7; simp add: is_space_def)

lemma is_word_Char:
  "is_word (Char b0 b1 b2 b3 b4 b5 b6 b7) =
     (if b7
      then (b6 \<and> \<not> (b4 \<and> \<not> b3 \<and> b2 \<and> b1 \<and> b0))
           \<or> (\<not> b6 \<and> b5 \<and> ((\<not> b4 \<and> b3 \<and> \<not> b2 \<and> b1 \<and> \<not> b0)
                \<or> (b4 \<and> ((\<not> b3 \<and> \<not> b2 \<and> b1) \<or> (\<not> b3 \<and> b2 \<and> \<not> b1 \<and> b0)
                          \<or> (b3 \<and> \<not> b2 \<and> (b1 \<noteq> b0)) \<or> (b3 \<and> b2 \<and> \<not> (b1 \<and> b0))))))
      else (b6 \<and> (b0 \<or> b1 \<or> b2 \<or> b3 \<or> b4) \<and> \<not> (b4 \<and> b3 \<and> (b2 \<or> (b1 \<and> b0))))
           \<or> (b6 \<and> \<not> b5 \<and> b4 \<and> b3 \<and> b2 \<and> b1 \<and> b0)
           \<or> (\<not> b6 \<and> b5 \<and> b4 \<and> \<not> (b3 \<and> (b2 \<or> b1))))"
  by (cases b0; cases b1; cases b2; cases b3; cases b4; cases b5; cases b6; cases b7; simp add: is_word_def)

lemma lower_chr_Char:
  "lower_chr (Char b0 b1 b2 b3 b4 b5 b6 b7) =
     (if b6 \<and> \<not> b5 \<and>
         (if b7 then \<not> (b4 \<and> b2 \<and> b1 \<and> b0)
          else (b0 \<or> b1 \<or> b2 \<or> b3 \<or> b4) \<and> \<not> (b4 \<and> b3 \<and> (b2 \<or> (b1 \<and> b0))))
      then Char b0 b1 b2 b3 b4 True b6 b7 else Char b0 b1 b2 b3 b4 b5 b6 b7)"
  unfolding lower_chr_def
  by (cases b0; cases b1; cases b2; cases b3; cases b4; cases b5; cases b6; cases b7; simp add: char_of_def bit_0)

lemma upper_chr_Char:
  "upper_chr (Char b0 b1 b2 b3 b4 b5 b6 b7) =
     (if b6 \<and> b5 \<and>
         (if b7 then \<not> (b4 \<and> b2 \<and> b1 \<and> b0)
          else (b0 \<or> b1 \<or> b2 \<or> b3 \<or> b4) \<and> \<not> (b4 \<and> b3 \<and> (b2 \<or> (b1 \<and> b0))))
      then Char b0 b1 b2 b3 b4 False b6 b7 else Char b0 b1 b2 b3 b4 b5 b6 b7)"
  unfolding upper_chr_def
  by (cases b0; cases b1; cases b2; cases b3; cases b4; cases b5; cases b6; cases b7; simp add: char_of_def bit_0)

lemma rng_upper: "item_ok (Rng CHR ''A'' CHR ''Z'') c = is_upper c"
  by (simp add: is_upper_def Let_def)
lemma rng_lower: "item_ok (Rng CHR ''a'' CHR ''z'') c = is_lower c"
  by (simp add: is_lower_def Let_def)
lemma rng_digit: "item_ok (Rng CHR ''0'' CHR ''9'') c = is_digit c"
  by (simp add: is_digit_def Let_def)

declare item_ok.simps(2) [simp del]
declare find_from.simps [simp del] search_from.simps [simp del] rep_greedy.simps [simp del] rep_lazy.simps [simp del]

lemmas chr_eval = is_upper_Char is_lower_Char is_digit_Char is_space_Char is_word_Char
  lower_chr_Char
  upper_chr_Char rng_upper rng_lower rng_digit

lemmas re_eval = chr_eval find_from.simps search_from.simps rep_greedy.simps rep_lazy.simps
  re_finditer_def re_search_def in_items_def chr_eq_def at_bol_def at_eol_def
  at_wordb_def word_before_def word_after_def hi_ok_def hi_dec_def digit_def space_def
  rplus_def rstar_def opt_chr_def rtimes_def
  MULTILINE_def IGNORECASE_def NOFLAGS_def IGNORECASE_DOTALL_def terminator_def
  match_group_def slice_def strip_def matched_def list_set_def first_occurrences_def

lemmas pat_defs = clause_pattern_def subclause_pattern_def definition_pattern_def date_patterns_def
  month_names_def currency_pattern_def percentage_pattern_def email_pattern_def phone_patterns_def
  url_pattern_def party_pattern_def sentence_pattern_def

lemma scenario_length: "length scenario_text = 120"
  by (simp add: scenario_text_def)

lemma scenario_nth:
  "scenario_text ! 0 = CHR ''1''" "scenario_text ! 1 = CHR ''.''" "scenario_text ! 2 = CHR '' ''"
  "scenario_text ! 3 = CHR ''T''" "scenario_text ! 4 = CHR ''E''" "scenario_text ! 5 = CHR ''R''"
  "scenario_text ! 6 = CHR ''M''" "scenario_text ! 7 = CHR ''I''" "scenario_text ! 8 = CHR ''N''"
  "scenario_text ! 9 = CHR ''A''" "scenario_text ! 10 = CHR ''T''" "scenario_text ! 11 = CHR ''I''"
  "scenario_text ! 12 = CHR ''O''" "scenario_text ! 13 = CHR ''N''" "scenario_text ! 14 = CHR 0x0A"
  "scenario_text ! 15 = CHR ''T''" "scenario_text ! 16 = CHR ''h''" "scenario_text ! 17 = CHR ''i''"
  "scenario_text ! 18 = CHR ''s''" "scenario_text ! 19 = CHR '' ''" "scenario_text ! 20 = CHR ''a''"
  "scenario_text ! 21 = CHR ''g''" "scenario_text ! 22 = CHR ''r''" "scenario_text ! 23 = CHR ''e''"
  "scenario_text ! 24 = CHR ''e''" "scenario_text ! 25 = CHR ''m''" "scenario_text ! 26 = CHR ''e''"
  "scenario_text ! 27 = CHR ''n''" "scenario_text ! 28 = CHR ''t''" "scenario_text ! 29 = CHR '' ''"
  "scenario_text ! 30 = CHR ''m''" "scenario_text ! 31 = CHR ''a''" "scenario_text ! 32 = CHR ''y''"
  "scenario_text ! 33 = CHR '' ''" "scenario_text ! 34 = CHR ''b''" "scenario_text ! 35 = CHR ''e''"
  "scenario_text ! 36 = CHR '' ''" "scenario_text ! 37 = CHR ''t''" "scenario_text ! 38 = CHR ''e''"
  "scenario_text ! 39 = CHR ''r''" "scenario_text ! 40 = CHR ''m''" "scenario_text ! 41 = CHR ''i''"
  "scenario_text ! 42 = CHR ''n''" "scenario_text ! 43 = CHR ''a''" "scenario_text ! 44 = CHR ''t''"
  "scenario_text ! 45 = CHR ''e''" "scenario_text ! 46 = CHR ''d''" "scenario_text ! 47 = CHR '' ''"
  "scenario_text ! 48 = CHR ''w''" "scenario_text ! 49 = CHR ''i''" "scenario_text ! 50 = CHR ''t''"
  "scenario_text ! 51 = CHR ''h''" "scenario_text ! 52 = CHR '' ''" "scenario_text ! 53 = CHR ''3''"
  "scenario_text ! 54 = CHR ''0''" "scenario_text ! 55 = CHR '' ''" "scenario_text ! 56 = CHR ''d''"
  "scenario_text ! 57 = CHR ''a''" "scenario_text ! 58 = CHR ''y''" "scenario_text ! 59 = CHR ''s''"
  "scenario_text ! 60 = CHR '' ''" "scenario_text ! 61 = CHR ''n''" "scenario_text ! 62 = CHR ''o''"
  "scenario_text ! 63 = CHR ''t''" "scenario_text ! 64 = CHR ''i''" "scenario_text ! 65 = CHR ''c''"
  "scenario_text ! 66 = CHR ''e''" "scenario_text ! 67 = CHR ''.''" "scenario_text ! 68 = CHR 0x0A"
  "scenario_text ! 69 = CHR ''2''" "scenario_text ! 70 = CHR ''.''" "scenario_text ! 71 = CHR '' ''"
  "scenario_text ! 72 = CHR ''C''" "scenario_text ! 73 = CHR ''O''" "scenario_text ! 74 = CHR ''N''"
  "scenario_text ! 75 = CHR ''F''" "scenario_text ! 76 = CHR ''I''" "scenario_text ! 77 = CHR ''D''"
  "scenario_text ! 78 = CHR ''E''" "scenario_text ! 79 = CHR ''N''" "scenario_text ! 80 = CHR ''T''"
  "scenario_text ! 81 = CHR ''I''" "scenario_text ! 82 = CHR ''A''" "scenario_text ! 83 = CHR ''L''"
  "scenario_text ! 84 = CHR ''I''" "scenario_text ! 85 = CHR ''T''" "scenario_text ! 86 = CHR ''Y''"
  "scenario_text ! 87 = CHR 0x0A" "scenario_text ! 88 = CHR ''A''" "scenario_text ! 89 = CHR ''l''"
  "scenario_text ! 90 = CHR ''l''" "scenario_text ! 91 = CHR '' ''" "scenario_text ! 92 = CHR ''i''"
  "scenario_text ! 93 = CHR ''n''" "scenario_text ! 94 = CHR ''f''" "scenario_text ! 95 = CHR ''o''"
  "scenario_text ! 96 = CHR ''r''" "scenario_text ! 97 = CHR ''m''" "scenario_text ! 98 = CHR ''a''"
  "scenario_text ! 99 = CHR ''t''" "scenario_text ! 100 = CHR ''i''" "scenario_text ! 101 = CHR ''o''"
  "scenario_text ! 102 = CHR ''n''" "scenario_text ! 103 = CHR '' ''" "scenario_text ! 104 = CHR ''i''"
  "scenario_text ! 105 = CHR ''s''" "scenario_text ! 106 = CHR '' ''" "scenario_text ! 107 = CHR ''c''"
  "scenario_text ! 108 = CHR ''o''" "scenario_text ! 109 = CHR ''n''" "scenario_text ! 110 = CHR ''f''"
  "scenario_text ! 111 = CHR ''i''" "scenario_text ! 112 = CHR ''d''" "scenario_text ! 113 = CHR ''e''"
  "scenario_text ! 114 = CHR ''n''" "scenario_text ! 115 = CHR ''t''" "scenario_text ! 116 = CHR ''i''"
  "scenario_text ! 117 = CHR ''a''" "scenario_text ! 118 = CHR ''l''" "scenario_text ! 119 = CHR ''.''"
  by (simp_all add: scenario_text_def)

lemmas scenario_eval = scenario_length scenario_nth

section \<open>The matcher returns the first candidate that succeeds\<close>

lemma first_some_append:
  "first_some k (xs @ ys) =
     (case first_some k xs of Some y \<Rightarrow> Some y | None \<Rightarrow> first_some k ys)"
  by (induction xs) (auto split: option.splits)

lemma first_some_concat:
  "first_some k (concat xss) = first_some (\<lambda>xs. first_some k xs) xss"
  by (induction xss) (auto simp: first_some_append split: option.splits)

lemma first_some_map: "first_some k (map g xs) = first_some (\<lambda>x. k (g x)) xs"
  by (induction xs) (auto split: option.splits)

lemma first_some_Some: "first_some Some xs = (case xs of [] \<Rightarrow> None | x # _ \<Rightarrow> Some x)"
  by (cases xs) auto

lemma first_some_cong:
  assumes "\<And>x. x \<in> set xs \<Longrightarrow> k x = k' x"
  shows "first_some k xs = first_some k' xs"
  using assms by (induction xs) (auto split: option.splits)

lemma upt_shift: "[Suc lo..<Suc n] = map Suc [lo..<n]"
  by (simp add: map_Suc_upt)

lemma upt_zero: "[0..<Suc n] = 0 # map Suc [0..<n]"
  by (simp add: upt_conv_Cons map_Suc_upt del: upt_Suc)

lemma rep_greedy_cands:
  "rep_greedy f tx a lo hi st k =
     first_some k (map (\<lambda>n. MState (pos st + n) (caps st))
                       (rev [lo..<Suc (run f tx a hi (pos st))]))"
proof (induction f tx a lo hi st k rule: rep_greedy.induct)
  case (1 f tx a lo hi st k)
  show ?case
  proof (cases "pos st < length tx \<and> hi_ok hi \<and> atom_ok f a (tx ! pos st)")
    case False
    have r0: "run f tx a hi (pos st) = 0"
      by (subst run.simps, subst if_not_P[OF False], rule refl)
    have "rep_greedy f tx a lo hi st k = (if lo = 0 then k st else None)"
      by (subst rep_greedy.simps, subst if_not_P[OF False], rule refl)
    then show ?thesis by (simp add: r0 split: option.splits)
  next
    case True
    define N where "N = run f tx a (hi_dec hi) (Suc (pos st))"
    define L where "L = (\<lambda>lo'. map (\<lambda>n. MState (Suc (pos st) + n) (caps st)) (rev [lo'..<Suc N]))"
    have rS: "run f tx a hi (pos st) = Suc N"
      by (subst run.simps, subst if_P[OF True]) (simp add: N_def)
    have ih: "rep_greedy f tx a (lo - 1) (hi_dec hi) (MState (Suc (pos st)) (caps st)) k =
       first_some k (L (lo - 1))"
      using 1[OF True] by (simp add: N_def L_def)
    have unf: "rep_greedy f tx a lo hi st k =
       (case rep_greedy f tx a (lo - 1) (hi_dec hi) (MState (Suc (pos st)) (caps st)) k of
              Some x \<Rightarrow> Some x
            | None \<Rightarrow> if lo = 0 then k st else None)"
      by (subst rep_greedy.simps, subst if_P[OF True]) simp
    have step: "rep_greedy f tx a lo hi st k =
       (case first_some k (L (lo - 1)) of Some x \<Rightarrow> Some x
        | None \<Rightarrow> if lo = 0 then k st else None)"
      unfolding unf ih by (rule refl)
    show ?thesis
    proof (cases lo)
      case 0
      have "map (\<lambda>n. MState (pos st + n) (caps st)) (rev [0..<Suc (Suc N)]) = L 0 @ [st]"
        unfolding L_def by (subst upt_zero) (simp add: rev_map comp_def del: upt_Suc)
      then have "first_some k (map (\<lambda>n. MState (pos st + n) (caps st)) (rev [0..<Suc (Suc N)]))
         = (case first_some k (L 0) of Some x \<Rightarrow> Some x | None \<Rightarrow> k st)"
        by (simp add: first_some_append del: upt_Suc split: option.splits)
      then show ?thesis unfolding step rS by (simp add: 0 del: upt_Suc)
    next
      case (Suc lo')
      have "[Suc lo'..<Suc (Suc N)] = map Suc [lo'..<Suc N]"
        by (rule upt_shift)
      then have "map (\<lambda>n. MState (pos st + n) (caps st)) (rev [Suc lo'..<Suc (Suc N)]) = L lo'"
        unfolding L_def by (simp add: rev_map comp_def del: upt_Suc)
      then show ?thesis
        unfolding step rS by (simp add: Suc del: upt_Suc split: option.splits)
    qed
  qed
qed

lemma rep_lazy_cands:
  "rep_lazy f tx a lo hi st k =
     first_some k (map (\<lambda>n. MState (pos st + n) (caps st))
                       [lo..<Suc (run f tx a hi (pos st))])"
proof (induction f tx a lo hi st k rule: rep_lazy.induct)
  case (1 f tx a lo hi st k)
  show ?case
  proof (cases "pos st < length tx \<and> hi_ok hi \<and> atom_ok f a (tx ! pos st)")
    case False
    have r0: "run f tx a hi (pos st) = 0"
      by (subst run.simps, subst if_not_P[OF False], rule refl)
    have "rep_lazy f tx a lo hi st k = (if lo = 0 then k st else None)"
      by (subst rep_lazy.simps, subst if_not_P[OF False]) (simp split: option.splits)
    then show ?thesis by (simp add: r0 split: option.splits)
  next
    case True
    define N where "N = run f tx a (hi_dec hi) (Suc (pos st))"
    define L where "L = (\<lambda>lo'. map (\<lambda>n. MState (Suc (pos st) + n) (caps st)) [lo'..<Suc N])"
    have rS: "run f tx a hi (pos st) = Suc N"
      by (subst run.simps, subst if_P[OF True]) (simp add: N_def)
    have unf: "rep_lazy f tx a lo hi st k =
       (case (if lo = 0 then k st else None) of
          Some x \<Rightarrow> Some x
        | None \<Rightarrow> rep_lazy f tx a (lo - 1) (hi_dec hi) (MState (Suc (pos st)) (caps st)) k)"
      by (subst rep_lazy.simps, subst if_P[OF True], unfold Suc_eq_plus1, rule refl)
    show ?thesis
    proof (cases lo)
      case 0
      have L0: "map (\<lambda>n. MState (pos st + n) (caps st)) [0..<Suc (Suc N)] = st # L 0"
        unfolding L_def by (subst upt_zero) (simp add: comp_def del: upt_Suc)
      show ?thesis
      proof (cases "k st")
        case None
        have ih: "rep_lazy f tx a (lo - 1) (hi_dec hi) (MState (Suc (pos st)) (caps st)) k =
           first_some k (L 0)"
          using 1[OF _ True] None 0 by (simp add: N_def L_def)
        show ?thesis unfolding unf ih rS using None by (simp add: 0 L0 del: upt_Suc)
      next
        case (Some x)
        show ?thesis unfolding unf rS using Some by (simp add: 0 L0 del: upt_Suc)
      qed
    next
      case (Suc lo')
      have ih: "rep_lazy f tx a (lo - 1) (hi_dec hi) (MState (Suc (pos st)) (caps st)) k =
           first_some k (L lo')"
        using 1[OF _ True] Suc by (simp add: N_def L_def)
      have "[Suc lo'..<Suc (Suc N)] = map Suc [lo'..<Suc N]"
        by (rule upt_shift)
      then have "map (\<lambda>n. MState (pos st + n) (caps st)) [Suc lo'..<Suc (Suc N)] = L lo'"
        unfolding L_def by (simp add: comp_def del: upt_Suc)
      then show ?thesis
        unfolding unf ih rS by (simp add: Suc del: upt_Suc)
    qed
  qed
qed

theorem rmatch_cands:
  "rmatch f tx r st k = first_some k (cands f tx r st)"
proof (induction r arbitrary: st k)
  case (Seq r1 r2)
  have "rmatch f tx (Seq r1 r2) st k
          = first_some (\<lambda>st'. rmatch f tx r2 st' k) (cands f tx r1 st)"
    by (simp add: Seq.IH(1))
  also have "\<dots> = first_some (\<lambda>st'. first_some k (cands f tx r2 st')) (cands f tx r1 st)"
    by (rule first_some_cong) (simp add: Seq.IH(2))
  finally show ?case by (simp add: first_some_concat first_some_map)
next
  case (Look r)
  then show ?case by (simp add: first_some_Some split: list.splits option.splits)
qed (simp_all add: first_some_append first_some_map rep_greedy_cands rep_lazy_cands
       split: option.splits)

lemma rmatch_Some_hd:
  "rmatch f tx r st Some = (case cands f tx r st of [] \<Rightarrow> None | x # _ \<Rightarrow> Some x)"
  by (simp add: rmatch_cands first_some_Some)

section \<open>Runs of a character class\<close>

lemma run_all:
  "p < run f tx a hi i \<Longrightarrow> i + p < length tx \<and> atom_ok f a (tx ! (i + p))"
proof (induction f tx a hi i arbitrary: p rule: run.induct)
  case (1 f tx a hi i)
  show ?case
  proof (cases "i < length tx \<and> hi_ok hi \<and> atom_ok f a (tx ! i)")
    case False
    have "run f tx a hi i = 0" by (subst run.simps, subst if_not_P[OF False], rule refl)
    with 1(2) show ?thesis by simp
  next
    case True
    have rS: "run f tx a hi i = Suc (run f tx a (hi_dec hi) (i + 1))"
      by (subst run.simps, subst if_P[OF True], rule refl)
    show ?thesis
    proof (cases p)
      case 0
      then show ?thesis using True by simp
    next
      case (Suc p')
      then have "p' < run f tx a (hi_dec hi) (i + 1)" using 1(2) rS by simp
      from 1(1)[OF True this] show ?thesis using Suc by simp
    qed
  qed
qed

lemma run_le: "i + run f tx a hi i \<le> max i (length tx)"
proof (cases "run f tx a hi i")
  case 0
  then show ?thesis by simp
next
  case (Suc n)
  then have "n < run f tx a hi i" by simp
  from run_all[OF this] show ?thesis using Suc by simp
qed

lemma run_stop:
  "length tx \<le> i + run f tx a None i \<or> \<not> atom_ok f a (tx ! (i + run f tx a None i))"
proof (induction f tx a "None :: nat option" i rule: run.induct)
  case (1 f tx a i)
  show ?case
  proof (cases "i < length tx \<and> hi_ok None \<and> atom_ok f a (tx ! i)")
    case False
    have "run f tx a None i = 0" by (subst run.simps, subst if_not_P[OF False], rule refl)
    then show ?thesis using False by (auto simp: hi_ok_def)
  next
    case True
    have rS: "run f tx a None i = Suc (run f tx a None (i + 1))"
      by (subst run.simps, subst if_P[OF True]) (simp add: hi_dec_def)
    from 1[OF True] show ?thesis by (simp add: rS hi_dec_def)
  qed
qed

lemma run_ge:
  "(\<And>p. p < n \<Longrightarrow> i + p < length tx \<and> atom_ok f a (tx ! (i + p))) \<Longrightarrow> n \<le> run f tx a None i"
proof (induction n arbitrary: i)
  case 0
  then show ?case by simp
next
  case (Suc n)
  from Suc.prems[of 0] have c: "i < length tx \<and> hi_ok None \<and> atom_ok f a (tx ! i)"
    by (simp add: hi_ok_def)
  have rS: "run f tx a None i = Suc (run f tx a None (i + 1))"
    by (subst run.simps, subst if_P[OF c]) (simp add: hi_dec_def)
  have "n \<le> run f tx a None (i + 1)"
  proof (rule Suc.IH)
    fix p assume "p < n"
    then show "i + 1 + p < length tx \<and> atom_ok f a (tx ! (i + 1 + p))"
      using Suc.prems[of "Suc p"] by simp
  qed
  then show ?case by (simp add: rS)
qed

lemma run_eq:
  assumes "\<And>p. p < n \<Longrightarrow> i + p < length tx \<and> atom_ok f a (tx ! (i + p))"
    and "length tx \<le> i + n \<or> \<not> atom_ok f a (tx ! (i + n))"
  shows "run f tx a None i = n"
proof -
  have ge: "n \<le> run f tx a None i" using assms(1) by (rule run_ge)
  have "\<not> n < run f tx a None i"
  proof
    assume "n < run f tx a None i"
    from run_all[OF this] assms(2) show False by simp
  qed
  with ge show ?thesis by simp
qed

section \<open>First success\<close>

lemma first_some_None_iff: "first_some k xs = None \<longleftrightarrow> (\<forall>x \<in> set xs. k x = None)"
  by (induction xs) (auto split: option.splits)

lemma concat_map_only:
  assumes "a \<in> set xs" "distinct xs" "\<And>x. x \<in> set xs \<Longrightarrow> x \<noteq> a \<Longrightarrow> g x = []"
  shows "concat (map g xs) = g a"
  using assms
proof (induction xs)
  case Nil
  then show ?case by simp
next
  case (Cons x xs)
  show ?case
  proof (cases "x = a")
    case True
    then have "a \<notin> set xs" using Cons.prems(2) by simp
    then have "\<forall>y \<in> set xs. g y = []" using Cons.prems(3) by auto
    then have "concat (map g xs) = []" by simp
    then show ?thesis using True by simp
  next
    case False
    then have "g x = []" using Cons.prems(3) by simp
    moreover have "concat (map g xs) = g a"
      using Cons.IH Cons.prems False by auto
    ultimately show ?thesis by simp
  qed
qed

lemma concat_map_none:
  assumes "\<And>x. x \<in> set xs \<Longrightarrow> g x = []"
  shows "concat (map g xs) = []"
  using assms by simp

section \<open>The scan\<close>

lemma find_from_unfold:
  "i \<le> length tx \<Longrightarrow> find_from f r tx i =
     (case cands f tx r (MState i []) of
        [] \<Rightarrow> find_from f r tx (i + 1)
      | st' # _ \<Rightarrow>
          Match i (pos st') (caps st') #
            (if i < pos st' then find_from f r tx (pos st') else find_from f r tx (i + 1)))"
  by (subst find_from.simps) (simp add: rmatch_Some_hd split: list.splits)

lemma find_from_beyond: "length tx < i \<Longrightarrow> find_from f r tx i = []"
  by (subst find_from.simps) simp

lemma find_from_no_cands:
  assumes "\<And>j. i \<le> j \<Longrightarrow> j \<le> length tx \<Longrightarrow> cands f tx r (MState j []) = []"
  shows "find_from f r tx i = []"
  using assms
proof (induction "length tx + 1 - i" arbitrary: i)
  case 0
  then have "length tx < i" by simp
  then show ?case by (rule find_from_beyond)
next
  case (Suc n)
  then have le: "i \<le> length tx" by simp
  have "cands f tx r (MState i []) = []" using Suc.prems[of i] le by simp
  then have "find_from f r tx i = find_from f r tx (i + 1)"
    using find_from_unfold[OF le] by simp
  also have "\<dots> = []"
  proof (rule Suc.hyps(1))
    show "n = length tx + 1 - (i + 1)" using Suc.hyps(2) by simp
    show "cands f tx r (MState j []) = []" if "i + 1 \<le> j" "j \<le> length tx" for j
      using Suc.prems[of j] that by simp
  qed
  finally show ?case .
qed

section \<open>Positions of candidates and matches\<close>

text \<open>
  What the scan of \<open>re.finditer\<close> returns: every match is the first candidate at its
  start, the matches are in order and do not overlap, and a start with a candidate that
  no earlier match runs over is the start of a match.
\<close>

lemma lit_pos: "lit f tx s i = Some j \<Longrightarrow> j = i + length s"
proof (induction s arbitrary: i)
  case Nil
  then show ?case by simp
next
  case (Cons c s)
  then have "lit f tx s (i + 1) = Some j" by (auto split: if_splits)
  from Cons.IH[OF this] show ?case by simp
qed

lemma lit_SomeD:
  "lit f tx s i = Some j \<Longrightarrow> i \<le> length tx \<Longrightarrow>
     i + length s \<le> length tx \<and> (\<forall>p < length s. chr_eq f (s ! p) (tx ! (i + p)))"
proof (induction s arbitrary: i)
  case Nil
  then show ?case by simp
next
  case (Cons c s)
  then have c: "i < length tx" "chr_eq f c (tx ! i)" "lit f tx s (i + 1) = Some j"
    by (auto split: if_splits)
  from Cons.IH[OF c(3)] c(1) have ih: "i + 1 + length s \<le> length tx"
    "\<forall>p < length s. chr_eq f (s ! p) (tx ! (i + 1 + p))" by auto
  show ?case
  proof (intro conjI allI impI)
    show "i + length (c # s) \<le> length tx" using ih(1) by simp
    fix p assume "p < length (c # s)"
    then show "chr_eq f ((c # s) ! p) (tx ! (i + p))"
      using c(2) ih(2) by (cases p) auto
  qed
qed

lemma lit_SomeI:
  "i + length s \<le> length tx \<Longrightarrow> (\<And>p. p < length s \<Longrightarrow> chr_eq f (s ! p) (tx ! (i + p)))
     \<Longrightarrow> lit f tx s i = Some (i + length s)"
proof (induction s arbitrary: i)
  case Nil
  then show ?case by simp
next
  case (Cons c s)
  have "chr_eq f c (tx ! i)" using Cons.prems(2)[of 0] by simp
  moreover have "i < length tx" using Cons.prems(1) by simp
  moreover have "lit f tx s (i + 1) = Some (i + 1 + length s)"
  proof (rule Cons.IH)
    show "i + 1 + length s \<le> length tx" using Cons.prems(1) by simp
    fix p assume "p < length s"
    then show "chr_eq f (s ! p) (tx ! (i + 1 + p))" using Cons.prems(2)[of "Suc p"] by simp
  qed
  ultimately show ?case by simp
qed

lemma cands_pos: "x \<in> set (cands f tx r st) \<Longrightarrow> pos st \<le> pos x"
proof (induction r arbitrary: st x)
  case (Str s)
  show ?case
  proof (cases "lit f tx s (pos st)")
    case None
    then show ?thesis using Str by simp
  next
    case (Some j)
    with Str have "x = MState j (caps st)" by simp
    with lit_pos[OF Some] show ?thesis by simp
  qed
next
  case (Seq r1 r2)
  then show ?case by (fastforce dest: order_trans)
next
  case (Look r)
  then show ?case by (auto split: list.splits)
qed (auto split: if_splits)

lemma find_from_sound:
  "m \<in> set (find_from f r tx i) \<Longrightarrow>
     i \<le> mstart m \<and> mstart m \<le> length tx
     \<and> (\<exists>xs. cands f tx r (MState (mstart m) []) = MState (mend m) (mcaps m) # xs)"
proof (induction f r tx i rule: find_from.induct)
  case (1 f r tx i)
  show ?case
  proof (cases "length tx < i")
    case True
    then have "find_from f r tx i = []" by (rule find_from_beyond)
    with 1(4) show ?thesis by simp
  next
    case False
    then have le: "i \<le> length tx" by simp
    show ?thesis
    proof (cases "cands f tx r (MState i [])")
      case Nil
      then have rm: "rmatch f tx r (MState i []) Some = None" by (simp add: rmatch_Some_hd)
      have "find_from f r tx i = find_from f r tx (i + 1)"
        using find_from_unfold[OF le] Nil by simp
      with 1(4) have "m \<in> set (find_from f r tx (i + 1))" by simp
      from 1(1)[OF False rm this] show ?thesis by auto
    next
      case (Cons st' xs)
      then have rm: "rmatch f tx r (MState i []) Some = Some st'" by (simp add: rmatch_Some_hd)
      have ff: "find_from f r tx i = Match i (pos st') (caps st') #
            (if i < pos st' then find_from f r tx (pos st') else find_from f r tx (i + 1))"
        using find_from_unfold[OF le] Cons by simp
      have ge: "i \<le> pos st'" using cands_pos[of st' f tx r "MState i []"] Cons by simp
      show ?thesis
      proof (cases "m = Match i (pos st') (caps st')")
        case True
        then show ?thesis using le Cons by simp
      next
        case False
        show ?thesis
        proof (cases "i < pos st'")
          case True
          with ff 1(4) \<open>m \<noteq> Match i (pos st') (caps st')\<close>
          have "m \<in> set (find_from f r tx (pos st'))" by simp
          from 1(2)[OF \<open>\<not> length tx < i\<close> rm True this] show ?thesis using True by auto
        next
          case False
          with ff 1(4) \<open>m \<noteq> Match i (pos st') (caps st')\<close>
          have "m \<in> set (find_from f r tx (i + 1))" by simp
          from 1(3)[OF \<open>\<not> length tx < i\<close> rm False this] show ?thesis by auto
        qed
      qed
    qed
  qed
qed

lemma find_from_in_order: "in_order (find_from f r tx i)"
proof (induction f r tx i rule: find_from.induct)
  case (1 f r tx i)
  show ?case
  proof (cases "length tx < i")
    case True
    then have "find_from f r tx i = []" by (rule find_from_beyond)
    then show ?thesis by (simp add: in_order_def)
  next
    case False
    then have le: "i \<le> length tx" by simp
    show ?thesis
    proof (cases "cands f tx r (MState i [])")
      case Nil
      then have rm: "rmatch f tx r (MState i []) Some = None" by (simp add: rmatch_Some_hd)
      have "find_from f r tx i = find_from f r tx (i + 1)"
        using find_from_unfold[OF le] Nil by simp
      with 1(1)[OF False rm] show ?thesis by simp
    next
      case (Cons st' xs)
      then have rm: "rmatch f tx r (MState i []) Some = Some st'" by (simp add: rmatch_Some_hd)
      have ff: "find_from f r tx i = Match i (pos st') (caps st') #
            (if i < pos st' then find_from f r tx (pos st') else find_from f r tx (i + 1))"
        using find_from_unfold[OF le] Cons by simp
      have ge: "i \<le> pos st'" using cands_pos[of st' f tx r "MState i []"] Cons by simp
      show ?thesis
      proof (cases "i < pos st'")
        case True
        have io: "in_order (find_from f r tx (pos st'))" using 1(2)[OF False rm True] .
        have "\<forall>m \<in> set (find_from f r tx (pos st')). pos st' \<le> mstart m"
          using find_from_sound by blast
        then show ?thesis using ff True io by (auto simp: in_order_def)
      next
        case False
        then have eq: "pos st' = i" using ge by simp
        have io: "in_order (find_from f r tx (i + 1))" using 1(3)[OF \<open>\<not> length tx < i\<close> rm False] .
        have "\<forall>m \<in> set (find_from f r tx (i + 1)). i + 1 \<le> mstart m"
          using find_from_sound by blast
        then show ?thesis using ff False io eq by (auto simp: in_order_def)
      qed
    qed
  qed
qed

lemma find_from_complete:
  assumes "i \<le> s" "s \<le> length tx" "cands f tx r (MState s []) = x # xs"
    and "\<And>j y ys. i \<le> j \<Longrightarrow> j < s \<Longrightarrow> cands f tx r (MState j []) = y # ys \<Longrightarrow> pos y \<le> s"
  shows "Match s (pos x) (caps x) \<in> set (find_from f r tx i)"
  using assms
proof (induction f r tx i rule: find_from.induct)
  case (1 f r tx i)
  have le: "i \<le> length tx" using 1(4,5) by simp
  then have nlt: "\<not> length tx < i" by simp
  show ?case
  proof (cases "i = s")
    case True
    then show ?thesis using find_from_unfold[OF le] 1(6) by simp
  next
    case False
    then have lt: "i < s" using 1(4) by simp
    show ?thesis
    proof (cases "cands f tx r (MState i [])")
      case Nil
      then have rm: "rmatch f tx r (MState i []) Some = None" by (simp add: rmatch_Some_hd)
      have ff: "find_from f r tx i = find_from f r tx (i + 1)"
        using find_from_unfold[OF le] Nil by simp
      have "Match s (pos x) (caps x) \<in> set (find_from f r tx (i + 1))"
      proof (rule 1(1)[OF nlt rm])
        show "i + 1 \<le> s" using lt by simp
        show "s \<le> length tx" by (rule 1(5))
        show "cands f tx r (MState s []) = x # xs" by (rule 1(6))
        show "pos y \<le> s" if "i + 1 \<le> j" "j < s" "cands f tx r (MState j []) = y # ys" for j y ys
          using 1(7)[of j y ys] that by simp
      qed
      then show ?thesis using ff by simp
    next
      case (Cons st' zs)
      then have rm: "rmatch f tx r (MState i []) Some = Some st'" by (simp add: rmatch_Some_hd)
      have ff: "find_from f r tx i = Match i (pos st') (caps st') #
            (if i < pos st' then find_from f r tx (pos st') else find_from f r tx (i + 1))"
        using find_from_unfold[OF le] Cons by simp
      have ps: "pos st' \<le> s" using 1(7)[OF _ lt Cons] by simp
      show ?thesis
      proof (cases "i < pos st'")
        case True
        have "Match s (pos x) (caps x) \<in> set (find_from f r tx (pos st'))"
        proof (rule 1(2)[OF nlt rm True])
          show "pos st' \<le> s" by (rule ps)
          show "s \<le> length tx" by (rule 1(5))
          show "cands f tx r (MState s []) = x # xs" by (rule 1(6))
          show "pos y \<le> s" if "pos st' \<le> j" "j < s" "cands f tx r (MState j []) = y # ys" for j y ys
            using 1(7)[of j y ys] that True by simp
        qed
        then show ?thesis using ff True by simp
      next
        case False
        have "Match s (pos x) (caps x) \<in> set (find_from f r tx (i + 1))"
        proof (rule 1(3)[OF nlt rm False])
          show "i + 1 \<le> s" using lt by simp
          show "s \<le> length tx" by (rule 1(5))
          show "cands f tx r (MState s []) = x # xs" by (rule 1(6))
          show "pos y \<le> s" if "i + 1 \<le> j" "j < s" "cands f tx r (MState j []) = y # ys" for j y ys
            using 1(7)[of j y ys] that by simp
        qed
        then show ?thesis using ff False by simp
      qed
    qed
  qed
qed

section \<open>Properties of the risk score\<close>

lemma level_count_nonneg: "0 \<le> level_count lvl rs"
  by (simp add: level_count_def)

lemma level_count_Nil: "level_count lvl [] = 0"
  by (simp add: level_count_def)

lemma level_counts_partition:
  assumes "\<forall>r \<in> set rs. risk_level r = ''high'' \<or> risk_level r = ''medium'' \<or> risk_level r = ''low''"
  shows "level_count ''high'' rs + level_count ''medium'' rs + level_count ''low'' rs
           = int (length rs)"
  using assms by (induction rs) (auto simp: level_count_def)

text \<open>
  Claim C1. For a list of findings whose levels are all high, medium or low, with \<open>h\<close>,
  \<open>m\<close> and \<open>l\<close> entries of each, the score is \<open>min(100, floor((30h+15m+5l)/(h+m+l)))\<close>
  when the list is not empty and 0 when it is; the category is High Risk exactly for
  scores from 70, Medium Risk exactly for scores from 40 below 70, Low Risk otherwise.
\<close>

theorem calculate_risk_score_formula:
  assumes "\<forall>r \<in> set rs. risk_level r = ''high'' \<or> risk_level r = ''medium'' \<or> risk_level r = ''low''"
    and "h = level_count ''high'' rs"
    and "m = level_count ''medium'' rs"
    and "l = level_count ''low'' rs"
  shows "h + m + l = int (length rs)
       \<and> fst (calculate_risk_score rs)
           = (if h + m + l > 0 then min 100 ((30 * h + 15 * m + 5 * l) div (h + m + l)) else 0)
       \<and> (rs = [] \<longrightarrow> calculate_risk_score rs = (0, ''Low Risk''))
       \<and> (snd (calculate_risk_score rs) = ''High Risk'' \<longleftrightarrow> fst (calculate_risk_score rs) \<ge> 70)
       \<and> (snd (calculate_risk_score rs) = ''Medium Risk''
            \<longleftrightarrow> 40 \<le> fst (calculate_risk_score rs) \<and> fst (calculate_risk_score rs) < 70)
       \<and> (snd (calculate_risk_score rs) = ''Low Risk'' \<longleftrightarrow> fst (calculate_risk_score rs) < 40)"
proof -
  have total: "h + m + l = int (length rs)"
    using level_counts_partition[OF assms(1)] assms(2-4) by simp
  have score: "fst (calculate_risk_score rs)
           = (if h + m + l > 0 then min 100 ((30 * h + 15 * m + 5 * l) div (h + m + l)) else 0)"
  proof (cases "rs = []")
    case True
    then show ?thesis using total by (simp add: calculate_risk_score_def)
  next
    case False
    then have pos: "1 \<le> int (length rs)" by (cases rs) auto
    then have mx: "max 1 (int (length rs)) = int (length rs)" by linarith
    have gt: "0 < h + m + l" using pos total by linarith
    show ?thesis
      using False gt assms(2-4)
      by (simp add: calculate_risk_score_def Let_def mx total[symmetric] mult.commute)
  qed
  have empty: "rs = [] \<longrightarrow> calculate_risk_score rs = (0, ''Low Risk'')"
    by (simp add: calculate_risk_score_def)
  have cat: "snd (calculate_risk_score rs) = risk_category (fst (calculate_risk_score rs))"
    by (simp add: calculate_risk_score_def Let_def risk_category_def)
  have high: "snd (calculate_risk_score rs) = ''High Risk'' \<longleftrightarrow> fst (calculate_risk_score rs) \<ge> 70"
    unfolding cat by (simp add: risk_category_def)
  have medium: "snd (calculate_risk_score rs) = ''Medium Risk''
            \<longleftrightarrow> 40 \<le> fst (calculate_risk_score rs) \<and> fst (calculate_risk_score rs) < 70"
    unfolding cat by (simp add: risk_category_def)
  have low: "snd (calculate_risk_score rs) = ''Low Risk'' \<longleftrightarrow> fst (calculate_risk_score rs) < 40"
    unfolding cat by (simp add: risk_category_def)
  from total score empty high medium low show ?thesis by blast
qed

theorem calculate_risk_score_formula_witness:
  "level_count ''high'' [\<lparr>rtype = ''A'', risk_level = ''high'', description = ''a'', evidence = ''x.'', severity_score = 85\<rparr>,
                         \<lparr>rtype = ''B'', risk_level = ''medium'', description = ''b'', evidence = ''y.'', severity_score = 55\<rparr>] = 1
   \<and> fst (calculate_risk_score
        [\<lparr>rtype = ''A'', risk_level = ''high'', description = ''a'', evidence = ''x.'', severity_score = 85\<rparr>,
         \<lparr>rtype = ''B'', risk_level = ''medium'', description = ''b'', evidence = ''y.'', severity_score = 55\<rparr>]) = 22
   \<and> snd (calculate_risk_score
        [\<lparr>rtype = ''A'', risk_level = ''high'', description = ''a'', evidence = ''x.'', severity_score = 85\<rparr>,
         \<lparr>rtype = ''B'', risk_level = ''medium'', description = ''b'', evidence = ''y.'', severity_score = 55\<rparr>]) = ''Low Risk''"
  using calculate_risk_score_formula
    [of "[\<lparr>rtype = ''A'', risk_level = ''high'', description = ''a'', evidence = ''x.'', severity_score = 85\<rparr>,
          \<lparr>rtype = ''B'', risk_level = ''medium'', description = ''b'', evidence = ''y.'', severity_score = 55\<rparr>]" 1 1 0]
  by (simp add: level_count_def)

section \<open>Properties of the classifier\<close>

lemma count_matches_filter:
  "count_matches low kws n = n + length (filter (str_contains low) kws)"
  by (induction kws arbitrary: n) auto

lemma count_matches_le: "count_matches low kws 0 \<le> length kws"
  by (simp add: count_matches_filter)

lemma count_matches_distinct:
  assumes "distinct kws"
  shows "count_matches (lower text) kws 0 = distinct_keywords_present text kws"
proof -
  have "distinct (filter (str_contains (lower text)) kws)" using assms by simp
  then have "length (filter (str_contains (lower text)) kws)
               = card (set (filter (str_contains (lower text)) kws))"
    by (rule distinct_card[symmetric])
  moreover have "set (filter (str_contains (lower text)) kws)
                   = {kw \<in> set kws. str_contains (lower text) kw}" by auto
  ultimately show ?thesis
    by (simp only: count_matches_filter distinct_keywords_present_def add_0)
qed

lemma score_types_eq:
  "score_types low ps acc =
     acc @ map (\<lambda>(n, kws, mn). (n, count_matches low kws 0))
             (filter (\<lambda>(n, kws, mn). mn \<le> count_matches low kws 0) ps)"
  by (induction ps arbitrary: acc) (auto simp: Let_def)

lemma patterns_distinct:
  "list_all (\<lambda>(n, kws, mn). distinct kws \<and> length kws \<le> 8) CLASSIFICATION_PATTERNS"
  by (simp add: CLASSIFICATION_PATTERNS_def)

lemma score_types_patterns:
  "score_types (lower text) CLASSIFICATION_PATTERNS [] =
     map (\<lambda>(n, kws, mn). (n, distinct_keywords_present text kws))
         (filter (\<lambda>(n, kws, mn). mn \<le> distinct_keywords_present text kws) CLASSIFICATION_PATTERNS)"
proof -
  have d: "\<forall>p \<in> set CLASSIFICATION_PATTERNS. distinct (fst (snd p))"
    using patterns_distinct by (auto simp: list_all_iff)
  have "map (\<lambda>(n, kws, mn). (n, count_matches (lower text) kws 0))
             (filter (\<lambda>(n, kws, mn). mn \<le> count_matches (lower text) kws 0) CLASSIFICATION_PATTERNS)
      = map (\<lambda>(n, kws, mn). (n, distinct_keywords_present text kws))
         (filter (\<lambda>(n, kws, mn). mn \<le> distinct_keywords_present text kws) CLASSIFICATION_PATTERNS)"
    using d
    by (intro arg_cong2[where f = map] ext filter_cong map_cong refl)
       (auto simp: count_matches_distinct)
  then show ?thesis by (simp add: score_types_eq)
qed

lemma score_types_bound:
  "list_all (\<lambda>(n, c). c \<le> 8) (score_types (lower text) CLASSIFICATION_PATTERNS [])"
proof -
  have "\<forall>p \<in> set CLASSIFICATION_PATTERNS. count_matches (lower text) (fst (snd p)) 0 \<le> 8"
  proof
    fix p assume "p \<in> set CLASSIFICATION_PATTERNS"
    then have "length (fst (snd p)) \<le> 8"
      using patterns_distinct by (auto simp: list_all_iff)
    then show "count_matches (lower text) (fst (snd p)) 0 \<le> 8"
      using count_matches_le[of "lower text" "fst (snd p)"] by linarith
  qed
  then show ?thesis
    by (auto simp: score_types_eq list_all_iff)
qed

lemma max_key_from_first:
  "\<exists>i < length (best # xs).
      max_key_from best xs = (best # xs) ! i
    \<and> (\<forall>j < length (best # xs). snd ((best # xs) ! j) \<le> snd ((best # xs) ! i))
    \<and> (\<forall>j < i. snd ((best # xs) ! j) < snd ((best # xs) ! i))"
proof (induction xs arbitrary: best)
  case Nil
  then show ?case by simp
next
  case (Cons kv xs)
  show ?case
  proof (cases "snd kv > snd best")
    case True
    from Cons[of kv] obtain i where i: "i < length (kv # xs)"
      "max_key_from kv xs = (kv # xs) ! i"
      "\<forall>j < length (kv # xs). snd ((kv # xs) ! j) \<le> snd ((kv # xs) ! i)"
      "\<forall>j < i. snd ((kv # xs) ! j) < snd ((kv # xs) ! i)" by blast
    have ge: "snd kv \<le> snd ((kv # xs) ! i)" using i(3)[rule_format, of 0] by simp
    show ?thesis
    proof (intro exI[of _ "Suc i"] conjI allI impI)
      show "Suc i < length (best # kv # xs)" using i(1) by simp
      show "max_key_from best (kv # xs) = (best # kv # xs) ! Suc i" using True i(2) by simp
      show "snd ((best # kv # xs) ! j) \<le> snd ((best # kv # xs) ! Suc i)"
        if "j < length (best # kv # xs)" for j
        using that i(3) ge True by (cases j) auto
      show "snd ((best # kv # xs) ! j) < snd ((best # kv # xs) ! Suc i)" if "j < Suc i" for j
        using that i(4) ge True by (cases j) auto
    qed
  next
    case False
    from Cons[of best] obtain i where i: "i < length (best # xs)"
      "max_key_from best xs = (best # xs) ! i"
      "\<forall>j < length (best # xs). snd ((best # xs) ! j) \<le> snd ((best # xs) ! i)"
      "\<forall>j < i. snd ((best # xs) ! j) < snd ((best # xs) ! i)" by blast
    have ge: "snd best \<le> snd ((best # xs) ! i)" using i(3)[rule_format, of 0] by simp
    show ?thesis
    proof (cases i)
      case 0
      show ?thesis
      proof (intro exI[of _ 0] conjI allI impI)
        show "0 < length (best # kv # xs)" by simp
        show "max_key_from best (kv # xs) = (best # kv # xs) ! 0" using False i(2) 0 by simp
        show "snd ((best # kv # xs) ! j) \<le> snd ((best # kv # xs) ! 0)"
          if "j < length (best # kv # xs)" for j
        proof (cases j)
          case 0 then show ?thesis by simp
        next
          case (Suc j')
          show ?thesis
          proof (cases j')
            case 0 then show ?thesis using Suc False by simp
          next
            case (Suc j'')
            then show ?thesis using \<open>j = Suc j'\<close> that i(3)[rule_format, of "Suc j''"] \<open>i = 0\<close> by simp
          qed
        qed
        show "snd ((best # kv # xs) ! j) < snd ((best # kv # xs) ! 0)" if "j < 0" for j
          using that by simp
      qed
    next
      case (Suc i')
      have gt: "snd best < snd (xs ! i')" using i(4)[rule_format, of 0] Suc by simp
      show ?thesis
      proof (intro exI[of _ "Suc (Suc i')"] conjI allI impI)
        show "Suc (Suc i') < length (best # kv # xs)" using i(1) Suc by simp
        show "max_key_from best (kv # xs) = (best # kv # xs) ! Suc (Suc i')"
          using False i(2) Suc by simp
        show "snd ((best # kv # xs) ! j) \<le> snd ((best # kv # xs) ! Suc (Suc i'))"
          if "j < length (best # kv # xs)" for j
        proof (cases j)
          case 0 then show ?thesis using gt by simp
        next
          case (Suc j')
          show ?thesis
          proof (cases j')
            case 0 then show ?thesis using \<open>j = Suc j'\<close> False gt by simp
          next
            case (Suc j'')
            then show ?thesis
              using \<open>j = Suc j'\<close> that i(3)[rule_format, of "Suc j''"] \<open>i = Suc i'\<close> by simp
          qed
        qed
        show "snd ((best # kv # xs) ! j) < snd ((best # kv # xs) ! Suc (Suc i'))"
          if "j < Suc (Suc i')" for j
        proof (cases j)
          case 0 then show ?thesis using gt by simp
        next
          case (Suc j')
          show ?thesis
          proof (cases j')
            case 0 then show ?thesis using \<open>j = Suc j'\<close> False gt by simp
          next
            case (Suc j'')
            then show ?thesis
              using \<open>j = Suc j'\<close> that i(4)[rule_format, of "Suc j''"] \<open>i = Suc i'\<close> by simp
          qed
        qed
      qed
    qed
  qed
qed

lemma confidence_of_small:
  "confidence_of 0 = 0" "confidence_of 1 = 10" "confidence_of 2 = 20" "confidence_of 3 = 30"
  "confidence_of 4 = 40" "confidence_of 5 = 50" "confidence_of 6 = 60" "confidence_of 7 = 70"
  "confidence_of 8 = 80"
  by code_simp+

lemma unclamped_small:
  "dbl_round (dbl_round (of_nat 0 / 10) * 100) = 0"
  "dbl_round (dbl_round (of_nat 1 / 10) * 100) = 10"
  "dbl_round (dbl_round (of_nat 2 / 10) * 100) = 20"
  "dbl_round (dbl_round (of_nat 3 / 10) * 100) = 30"
  "dbl_round (dbl_round (of_nat 4 / 10) * 100) = 40"
  "dbl_round (dbl_round (of_nat 5 / 10) * 100) = 50"
  "dbl_round (dbl_round (of_nat 6 / 10) * 100) = 60"
  "dbl_round (dbl_round (of_nat 7 / 10) * 100) = 70"
  "dbl_round (dbl_round (of_nat 8 / 10) * 100) = 80"
  by code_simp+

lemma small_cases:
  assumes "c \<le> (8::nat)"
  shows "c = 0 \<or> c = 1 \<or> c = 2 \<or> c = 3 \<or> c = 4 \<or> c = 5 \<or> c = 6 \<or> c = 7 \<or> c = 8"
  using assms by arith

lemma unclamped_exact:
  assumes "c \<le> (8::nat)"
  shows "dbl_round (dbl_round (of_nat c / 10) * 100) = 10 * of_nat c"
  using small_cases[OF assms] unclamped_small by (elim disjE) simp_all

lemma confidence_of_exact:
  assumes "c \<le> (8::nat)"
  shows "confidence_of c = 10 * of_nat c"
  using small_cases[OF assms] confidence_of_small by (elim disjE) simp_all

text \<open>
  Claim C5. A bucket is in \<open>all_matches\<close> exactly when the number of its distinct
  keywords present in the lower-cased text reaches its threshold; \<open>all_matches\<close> keeps the
  declaration order; the primary type is the first bucket of \<open>all_matches\<close> with the
  greatest count, its confidence \<open>min(100, count / 10 * 100)\<close> (the double the code
  computes is that number exactly); with no qualifying bucket the result is
  General Contract, confidence 0, no matches.
\<close>

theorem classify_contract_buckets:
  "all_matches (classify_contract text) =
     map (\<lambda>(n, kws, mn). (n, distinct_keywords_present text kws))
         (filter (\<lambda>(n, kws, mn). mn \<le> distinct_keywords_present text kws) CLASSIFICATION_PATTERNS)
   \<and> map fst CLASSIFICATION_PATTERNS =
        [''Employment'', ''Lease'', ''Service Agreement'', ''Vendor'', ''Partnership'', ''NDA'',
         ''License Agreement'', ''Loan Agreement'']
   \<and> (all_matches (classify_contract text) = [] \<longrightarrow>
        primary_type (classify_contract text) = ''General Contract''
        \<and> confidence (classify_contract text) = 0)
   \<and> (all_matches (classify_contract text) \<noteq> [] \<longrightarrow>
        (\<exists>i < length (all_matches (classify_contract text)).
            primary_type (classify_contract text) = fst (all_matches (classify_contract text) ! i)
          \<and> confidence (classify_contract text)
              = min 100 (of_nat (snd (all_matches (classify_contract text) ! i)) / 10 * 100)
          \<and> confidence (classify_contract text)
              = confidence_of (snd (all_matches (classify_contract text) ! i))
          \<and> (\<forall>j < length (all_matches (classify_contract text)).
                snd (all_matches (classify_contract text) ! j)
                  \<le> snd (all_matches (classify_contract text) ! i))
          \<and> (\<forall>j < i. snd (all_matches (classify_contract text) ! j)
                  < snd (all_matches (classify_contract text) ! i))))"
proof -
  define sc where "sc = score_types (lower text) CLASSIFICATION_PATTERNS []"
  have am: "all_matches (classify_contract text) = sc"
    by (simp add: classify_contract_def sc_def Let_def split: list.splits)
  have p1: "all_matches (classify_contract text) =
     map (\<lambda>(n, kws, mn). (n, distinct_keywords_present text kws))
         (filter (\<lambda>(n, kws, mn). mn \<le> distinct_keywords_present text kws) CLASSIFICATION_PATTERNS)"
    unfolding am sc_def by (rule score_types_patterns)
  have p2: "map fst CLASSIFICATION_PATTERNS =
        [''Employment'', ''Lease'', ''Service Agreement'', ''Vendor'', ''Partnership'', ''NDA'',
         ''License Agreement'', ''Loan Agreement'']"
    by (simp add: CLASSIFICATION_PATTERNS_def)
  have p3: "all_matches (classify_contract text) = [] \<longrightarrow>
        primary_type (classify_contract text) = ''General Contract''
        \<and> confidence (classify_contract text) = 0"
    unfolding am by (simp add: classify_contract_def sc_def[symmetric] Let_def)
  have p4: "\<exists>i < length sc.
            primary_type (classify_contract text) = fst (sc ! i)
          \<and> confidence (classify_contract text) = min 100 (of_nat (snd (sc ! i)) / 10 * 100)
          \<and> confidence (classify_contract text) = confidence_of (snd (sc ! i))
          \<and> (\<forall>j < length sc. snd (sc ! j) \<le> snd (sc ! i))
          \<and> (\<forall>j < i. snd (sc ! j) < snd (sc ! i))" if ne: "sc \<noteq> []"
  proof -
    from ne obtain kv rest where sc: "sc = kv # rest" by (cases sc) auto
    from max_key_from_first[of kv rest] obtain i where i: "i < length sc"
      "max_key_from kv rest = sc ! i"
      "\<forall>j < length sc. snd (sc ! j) \<le> snd (sc ! i)"
      "\<forall>j < i. snd (sc ! j) < snd (sc ! i)"
      unfolding sc by blast
    have pt: "primary_type (classify_contract text) = fst (sc ! i)"
      using i(2) by (simp add: classify_contract_def sc_def[symmetric] Let_def sc)
    have cf: "confidence (classify_contract text) = confidence_of (snd (sc ! i))"
      using i(2) by (simp add: classify_contract_def sc_def[symmetric] Let_def sc)
    have "sc ! i \<in> set sc" using i(1) by simp
    then have le8: "snd (sc ! i) \<le> 8"
      using score_types_bound[of "text"] unfolding sc_def[symmetric]
      by (auto simp: list_all_iff)
    have "confidence_of (snd (sc ! i)) = min 100 (of_nat (snd (sc ! i)) / 10 * 100)"
      using le8 by (simp add: confidence_of_exact)
    with pt cf i show ?thesis by auto
  qed
  from p1 p2 p3 p4 show ?thesis unfolding am by blast
qed

theorem classify_contract_buckets_witness:
  "all_matches (classify_contract ''Employer, employee, employment.'') = [(''Employment'', 3)]
   \<and> primary_type (classify_contract ''Employer, employee, employment.'') = ''Employment''
   \<and> confidence (classify_contract ''Employer, employee, employment.'') = 30"
proof -
  have am: "all_matches (classify_contract ''Employer, employee, employment.'') = [(''Employment'', 3)]"
    by (simp add: classify_contract_def CLASSIFICATION_PATTERNS_def lower_def chr_eval Let_def)
  show ?thesis
    using classify_contract_buckets[of "''Employer, employee, employment.''"]
    unfolding am by simp
qed

text \<open>
  Claim C10. The confidence is at most 80: no bucket has more than 8 keywords, so the
  count is at most 8, the product before the cap is at most 80, the cap of 100 is never
  reached and 100 is not a possible confidence.
\<close>

theorem classify_confidence_at_most_80:
  "confidence (classify_contract text) \<le> 80
   \<and> confidence (classify_contract text) \<noteq> 100
   \<and> list_all (\<lambda>(n, kws, mn). length kws \<le> 8) CLASSIFICATION_PATTERNS
   \<and> list_all (\<lambda>(n, c). c \<le> 8 \<and> dbl_round (dbl_round (of_nat c / 10) * 100) \<le> 80
                    \<and> confidence_of c = dbl_round (dbl_round (of_nat c / 10) * 100))
        (all_matches (classify_contract text))"
proof -
  define sc where "sc = score_types (lower text) CLASSIFICATION_PATTERNS []"
  have am: "all_matches (classify_contract text) = sc"
    by (simp add: classify_contract_def sc_def Let_def split: list.splits)
  have b8: "list_all (\<lambda>(n, c). c \<le> 8) sc"
    unfolding sc_def by (rule score_types_bound)
  have each: "dbl_round (dbl_round (of_nat c / 10) * 100) \<le> 80
              \<and> confidence_of c = dbl_round (dbl_round (of_nat c / 10) * 100)"
    if "c \<le> 8" for c :: nat
  proof -
    have "(10::rat) * of_nat c \<le> 80" using that by simp
    then show ?thesis using that by (simp add: unclamped_exact confidence_of_exact)
  qed
  have p4: "list_all (\<lambda>(n, c). c \<le> 8 \<and> dbl_round (dbl_round (of_nat c / 10) * 100) \<le> 80
                    \<and> confidence_of c = dbl_round (dbl_round (of_nat c / 10) * 100)) sc"
    using b8 each by (auto simp: list_all_iff)
  have p3: "list_all (\<lambda>(n, kws, mn). length kws \<le> 8) CLASSIFICATION_PATTERNS"
    using patterns_distinct by (auto simp: list_all_iff)
  have p1: "confidence (classify_contract text) \<le> 80"
  proof (cases sc)
    case Nil
    then show ?thesis by (simp add: classify_contract_def sc_def[symmetric] Let_def)
  next
    case (Cons kv rest)
    from max_key_from_first[of kv rest] obtain i where i: "i < length sc"
      "max_key_from kv rest = sc ! i" unfolding Cons by blast
    have "sc ! i \<in> set sc" using i(1) by simp
    then have le8: "snd (sc ! i) \<le> 8" using b8 by (auto simp: list_all_iff)
    have "confidence (classify_contract text) = confidence_of (snd (sc ! i))"
      using i(2) by (simp add: classify_contract_def sc_def[symmetric] Let_def Cons)
    also have "\<dots> = 10 * of_nat (snd (sc ! i))" using le8 by (rule confidence_of_exact)
    also have "\<dots> \<le> 80" using le8 by simp
    finally show ?thesis .
  qed
  then have p2: "confidence (classify_contract text) \<noteq> 100" by simp
  from p1 p2 p3 p4 show ?thesis unfolding am by blast
qed

section \<open>Properties of the risk detector\<close>

lemma first_occurrences_Nil: "first_occurrences [] = []"
  by (simp add: first_occurrences_def)

lemma set_first_occurrences: "set (first_occurrences xs) = set xs"
  by (simp add: first_occurrences_def)

lemma distinct_first_occurrences: "distinct (first_occurrences xs)"
  by (simp add: first_occurrences_def)

lemma first_occurrences_snoc:
  "first_occurrences (xs @ [x]) =
     (if x \<in> set xs then first_occurrences xs else first_occurrences xs @ [x])"
  by (simp add: first_occurrences_def)

lemma add_risks_eq:
  "add_risks rt info ss (first_occurrences ys) =
     first_occurrences (ys @ map (make_risk rt info) ss)"
proof (induction ss arbitrary: ys)
  case Nil
  then show ?case by simp
next
  case (Cons s ss)
  have "add_risks rt info (s # ss) (first_occurrences ys)
          = add_risks rt info ss (first_occurrences (ys @ [make_risk rt info s]))"
    by (simp add: Let_def first_occurrences_snoc set_first_occurrences)
  also have "\<dots> = first_occurrences ((ys @ [make_risk rt info s]) @ map (make_risk rt info) ss)"
    by (rule Cons.IH)
  finally show ?case by simp
qed

lemma scan_keywords_eq:
  "scan_keywords text low rt info kws (first_occurrences ys) =
     first_occurrences
       (ys @ (case find (str_contains low) kws of
                None \<Rightarrow> []
              | Some kw \<Rightarrow> map (make_risk rt info) (find_sentence_with_keyword text kw 150)))"
  by (induction kws) (simp_all add: add_risks_eq)

lemma scan_types_eq:
  "scan_types text (lower text) ps (first_occurrences ys) =
     first_occurrences (ys @ concat (map (\<lambda>(rt, info). first_hit text rt info) ps))"
proof (induction ps arbitrary: ys)
  case Nil
  then show ?case by simp
next
  case (Cons p ps)
  obtain rt info where p: "p = (rt, info)" by (cases p)
  have "scan_types text (lower text) (p # ps) (first_occurrences ys)
          = scan_types text (lower text) ps (first_occurrences (ys @ first_hit text rt info))"
    by (simp add: p scan_keywords_eq first_hit_def)
  also have "\<dots> = first_occurrences
      ((ys @ first_hit text rt info) @ concat (map (\<lambda>(rt, info). first_hit text rt info) ps))"
    by (rule Cons.IH)
  finally show ?case by (simp add: p)
qed

lemma detect_risks_eq:
  "detect_risks text =
     first_occurrences (concat (map (\<lambda>(rt, info). first_hit text rt info) RISK_PATTERNS))"
  using scan_types_eq[of "text" RISK_PATTERNS "[]"]
  by (simp add: detect_risks_def first_occurrences_Nil)

lemma risk_patterns_levels:
  "list_all (\<lambda>(rt, info). info_level info = ''high'' \<or> info_level info = ''medium'')
     RISK_PATTERNS"
  by (simp add: RISK_PATTERNS_def)

lemma risk_patterns_lowercase:
  "list_all (\<lambda>(rt, info). list_all (\<lambda>kw. lower kw = kw) (info_keywords info)) RISK_PATTERNS"
  by (simp add: RISK_PATTERNS_def lower_def chr_eval)

lemma detect_risks_members:
  assumes "r \<in> set (detect_risks text)"
  shows "\<exists>rt info s. (rt, info) \<in> set RISK_PATTERNS \<and> r = make_risk rt info s"
  using assms
  by (auto simp: detect_risks_eq set_first_occurrences first_hit_def split: option.splits)

lemma detect_risks_levels:
  "list_all (\<lambda>r. risk_level r = ''high'' \<or> risk_level r = ''medium'') (detect_risks text)"
proof -
  have "risk_level r = ''high'' \<or> risk_level r = ''medium''" if "r \<in> set (detect_risks text)" for r
  proof -
    from detect_risks_members[OF that] obtain rt info s
      where m: "(rt, info) \<in> set RISK_PATTERNS" "r = make_risk rt info s" by blast
    from m(1) risk_patterns_levels have "info_level info = ''high'' \<or> info_level info = ''medium''"
      by (auto simp: list_all_iff)
    then show ?thesis by (simp add: m(2) make_risk_def)
  qed
  then show ?thesis by (auto simp: list_all_iff)
qed

lemma high_medium_bound:
  assumes "\<forall>r \<in> set rs. risk_level r = ''high'' \<or> risk_level r = ''medium''"
  shows "level_count ''high'' rs * 30 + level_count ''medium'' rs * 15 + level_count ''low'' rs * 5
           \<le> 30 * int (length rs)"
  using assms by (induction rs) (auto simp: level_count_def)

section \<open>The sentences of a keyword\<close>

lemma lower_chr_terminator:
  "lower_chr c = CHR ''.'' \<longleftrightarrow> c = CHR ''.''"
  "lower_chr c = CHR ''!'' \<longleftrightarrow> c = CHR ''!''"
  "lower_chr c = CHR ''?'' \<longleftrightarrow> c = CHR ''?''"
  "upper_chr c = CHR ''.'' \<longleftrightarrow> c = CHR ''.''"
  "upper_chr c = CHR ''!'' \<longleftrightarrow> c = CHR ''!''"
  "upper_chr c = CHR ''?'' \<longleftrightarrow> c = CHR ''?''"
  by (cases c; simp add: lower_chr_Char upper_chr_Char; blast)+

lemma terminator_ok:
  "atom_ok IGNORECASE_DOTALL (Cls neg terminator) c = (is_terminator c \<noteq> neg)"
  by (auto simp: IGNORECASE_DOTALL_def terminator_def in_items_def is_terminator_def
                 lower_chr_terminator)

lemma dot_ok: "atom_ok IGNORECASE_DOTALL Dot c"
  by (simp add: IGNORECASE_DOTALL_def)

lemma run_bounded: "run f tx a (Some h) i \<le> h"
proof (induction h arbitrary: i)
  case 0
  show ?case by (subst run.simps) (simp add: hi_ok_def)
next
  case (Suc h)
  show ?case
    using Suc[of "i + 1"] by (subst run.simps) (simp add: hi_ok_def hi_dec_def)
qed

lemma cands_Rep_iff:
  "x \<in> set (cands f tx (Rep g lo hi a) st) \<longleftrightarrow>
     (\<exists>n. lo \<le> n \<and> n \<le> run f tx a hi (pos st) \<and> x = MState (pos st + n) (caps st))"
  by (cases g) (auto simp: image_iff)

lemma list_all_slice:
  "b \<le> length tx \<Longrightarrow> list_all P (slice tx a b) = (\<forall>p. a \<le> p \<and> p < b \<longrightarrow> P (tx ! p))"
proof -
  assume b: "b \<le> length tx"
  show ?thesis
  proof
    assume l: "list_all P (slice tx a b)"
    show "\<forall>p. a \<le> p \<and> p < b \<longrightarrow> P (tx ! p)"
    proof (intro allI impI)
      fix p assume p: "a \<le> p \<and> p < b"
      then have "p - a < length (slice tx a b)" using b by (auto simp: slice_def)
      with l have "P (slice tx a b ! (p - a))" by (simp add: list_all_length)
      moreover have "slice tx a b ! (p - a) = tx ! p" using p b by (auto simp: slice_def)
      ultimately show "P (tx ! p)" by simp
    qed
  next
    assume r: "\<forall>p. a \<le> p \<and> p < b \<longrightarrow> P (tx ! p)"
    show "list_all P (slice tx a b)"
      unfolding list_all_length
    proof (intro allI impI)
      fix n assume "n < length (slice tx a b)"
      then have n: "n < b - a" "a + n < length tx" using b by (auto simp: slice_def)
      with r have "P (tx ! (a + n))" by simp
      then show "P (slice tx a b ! n)" using n b by (simp add: slice_def)
    qed
  qed
qed

lemma occurs_at_iff:
  assumes kl: "k \<le> length tx"
  shows "occurs_at tx kw k \<longleftrightarrow> lit IGNORECASE_DOTALL tx kw k = Some (k + length kw)"
proof
  assume o: "occurs_at tx kw k"
  then have le: "k + length kw \<le> length tx"
    and eq: "lower (slice tx k (k + length kw)) = lower kw" by (auto simp: occurs_at_def)
  show "lit IGNORECASE_DOTALL tx kw k = Some (k + length kw)"
  proof (rule lit_SomeI[OF le])
    fix p assume p: "p < length kw"
    have "lower (slice tx k (k + length kw)) ! p = lower kw ! p" using eq by simp
    then have "lower_chr (tx ! (k + p)) = lower_chr (kw ! p)"
      using p le by (simp add: lower_def slice_def)
    then show "chr_eq IGNORECASE_DOTALL (kw ! p) (tx ! (k + p))"
      by (simp add: chr_eq_def IGNORECASE_DOTALL_def)
  qed
next
  assume l: "lit IGNORECASE_DOTALL tx kw k = Some (k + length kw)"
  from lit_SomeD[OF l kl] have le: "k + length kw \<le> length tx"
    and ch: "\<And>p. p < length kw \<Longrightarrow> chr_eq IGNORECASE_DOTALL (kw ! p) (tx ! (k + p))" by auto
  have "lower (slice tx k (k + length kw)) = lower kw"
  proof (rule nth_equalityI)
    show "length (lower (slice tx k (k + length kw))) = length (lower kw)"
      using le by (simp add: lower_def slice_def)
    fix p assume "p < length (lower (slice tx k (k + length kw)))"
    then have p: "p < length kw" using le by (simp add: lower_def slice_def)
    from ch[OF p] have "lower_chr (kw ! p) = lower_chr (tx ! (k + p))"
      by (simp add: chr_eq_def IGNORECASE_DOTALL_def)
    then show "lower (slice tx k (k + length kw)) ! p = lower kw ! p"
      using p le by (simp add: lower_def slice_def)
  qed
  with le show "occurs_at tx kw k" by (simp add: occurs_at_def)
qed

lemma sentence_pattern_parts:
  "sentence_pattern kw w =
     Seq (Rep True 0 (Some w) Dot)
       (Seq (Rep False 0 None (Cls True terminator))
          (Seq (Str kw)
             (Seq (Rep False 0 None (Cls True terminator)) (Atom (Cls False terminator)))))"
  by (simp add: sentence_pattern_def)

lemma cands_Seq_iff:
  "x \<in> set (cands f tx (Seq r1 r2) st) \<longleftrightarrow>
     (\<exists>y. y \<in> set (cands f tx r1 st) \<and> x \<in> set (cands f tx r2 y))"
  by auto

lemma sentence_cands_sound:
  assumes x: "x \<in> set (cands IGNORECASE_DOTALL tx (sentence_pattern kw w) (MState s []))"
    and s: "s \<le> length tx"
  shows "caps x = [] \<and>
     (\<exists>a k. s \<le> a \<and> a \<le> s + w \<and> a \<le> k \<and> k + length kw < pos x \<and> pos x \<le> length tx
        \<and> list_all (\<lambda>c. \<not> is_terminator c) (slice tx a k)
        \<and> occurs_at tx kw k
        \<and> list_all (\<lambda>c. \<not> is_terminator c) (slice tx (k + length kw) (pos x - 1))
        \<and> is_terminator (tx ! (pos x - 1)))"
proof -
  let ?f = IGNORECASE_DOTALL
  let ?N = "Cls True terminator"
  from x obtain y1 y2 y3 y4 where
    y1: "y1 \<in> set (cands ?f tx (Rep True 0 (Some w) Dot) (MState s []))" and
    y2: "y2 \<in> set (cands ?f tx (Rep False 0 None ?N) y1)" and
    y3: "y3 \<in> set (cands ?f tx (Str kw) y2)" and
    y4: "y4 \<in> set (cands ?f tx (Rep False 0 None ?N) y3)" and
    x5: "x \<in> set (cands ?f tx (Atom (Cls False terminator)) y4)"
    unfolding sentence_pattern_parts cands_Seq_iff by blast
  from y1 obtain n1 where n1: "n1 \<le> run ?f tx Dot (Some w) s" "y1 = MState (s + n1) []"
    unfolding cands_Rep_iff by auto
  define a where "a = s + n1"
  have a_w: "a \<le> s + w" using n1(1) run_bounded[of ?f tx Dot w s] a_def by simp
  have a_len: "a \<le> length tx"
    using n1(1) run_le[of s ?f tx Dot "Some w"] s a_def by simp
  from y2 obtain n2 where n2: "n2 \<le> run ?f tx ?N None a" "y2 = MState (a + n2) []"
    unfolding cands_Rep_iff n1(2) a_def by auto
  define k where "k = a + n2"
  have k_len: "k \<le> length tx"
    using n2(1) run_le[of a ?f tx ?N None] a_len k_def by simp
  have pre: "\<not> is_terminator (tx ! p)" if "a \<le> p" "p < k" for p
  proof -
    have "p - a < run ?f tx ?N None a" using that n2(1) k_def by auto
    from run_all[OF this] that show ?thesis unfolding terminator_ok by simp
  qed
  from y3 obtain j where j: "lit ?f tx kw k = Some j" "y3 = MState j []"
    unfolding n2(2) k_def[symmetric] by (cases "lit ?f tx kw k") auto
  from lit_pos[OF j(1)] have j_eq: "j = k + length kw" .
  have occ: "occurs_at tx kw k" using j(1) unfolding j_eq occurs_at_iff[OF k_len] .
  then have j_len: "j \<le> length tx" unfolding j_eq occurs_at_def by simp
  from y4 obtain n3 where n3: "n3 \<le> run ?f tx ?N None j" "y4 = MState (j + n3) []"
    unfolding cands_Rep_iff j(2) by auto
  define t where "t = j + n3"
  have post: "\<not> is_terminator (tx ! p)" if "j \<le> p" "p < t" for p
  proof -
    have "p - j < run ?f tx ?N None j" using that n3(1) t_def by auto
    from run_all[OF this] that show ?thesis unfolding terminator_ok by simp
  qed
  from x5 have t: "t < length tx" "is_terminator (tx ! t)" "x = MState (t + 1) []"
    unfolding n3(2) t_def[symmetric] cands.simps(1) terminator_ok by (auto split: if_splits)
  have t_ge: "j \<le> t" using t_def by simp
  have l1: "list_all (\<lambda>c. \<not> is_terminator c) (slice tx a k)"
    unfolding list_all_slice[OF k_len] using pre by blast
  have "t \<le> length tx" using t(1) by simp
  from list_all_slice[OF this]
  have l2: "list_all (\<lambda>c. \<not> is_terminator c) (slice tx (k + length kw) t)"
    using post j_eq by blast
  have "s \<le> a \<and> a \<le> s + w \<and> a \<le> k \<and> k + length kw < pos x \<and> pos x \<le> length tx
        \<and> list_all (\<lambda>c. \<not> is_terminator c) (slice tx a k)
        \<and> occurs_at tx kw k
        \<and> list_all (\<lambda>c. \<not> is_terminator c) (slice tx (k + length kw) (pos x - 1))
        \<and> is_terminator (tx ! (pos x - 1))"
    using a_def a_w k_def t t_ge j_eq l1 l2 occ by simp
  then show ?thesis using t(3) by auto
qed

lemma sentence_cands_complete:
  assumes occ: "occurs_at tx kw k" and t: "k + length kw \<le> t" "t < length tx"
    "is_terminator (tx ! t)"
  shows "cands IGNORECASE_DOTALL tx (sentence_pattern kw w) (MState k []) \<noteq> []"
proof -
  let ?f = IGNORECASE_DOTALL
  let ?N = "Cls True terminator"
  define j where "j = k + length kw"
  define P where "P = (\<lambda>t. j \<le> t \<and> is_terminator (tx ! t))"
  define t' where "t' = (LEAST t. P t)"
  have Pt: "P t" using t j_def P_def by simp
  then have Pt': "P t'" unfolding t'_def by (rule LeastI)
  have t'_le: "t' \<le> t" unfolding t'_def using Pt by (rule Least_le)
  have least: "\<not> P p" if "p < t'" for p using that unfolding t'_def by (rule not_less_Least)
  have k_len: "k \<le> length tx" using occ by (simp add: occurs_at_def)
  have y1: "MState k [] \<in> set (cands ?f tx (Rep True 0 (Some w) Dot) (MState k []))"
    unfolding cands_Rep_iff by simp
  have y2: "MState k [] \<in> set (cands ?f tx (Rep False 0 None ?N) (MState k []))"
    unfolding cands_Rep_iff by simp
  have "lit ?f tx kw k = Some j" using occ unfolding occurs_at_iff[OF k_len] j_def .
  then have y3: "MState j [] \<in> set (cands ?f tx (Str kw) (MState k []))" by simp
  have "t' - j \<le> run ?f tx ?N None j"
  proof (rule run_ge)
    fix p assume p: "p < t' - j"
    then have "\<not> P (j + p)" using least by simp
    then have "\<not> is_terminator (tx ! (j + p))" by (simp add: P_def)
    moreover have "j + p < length tx" using p t'_le t(2) by simp
    ultimately show "j + p < length tx \<and> atom_ok ?f ?N (tx ! (j + p))"
      unfolding terminator_ok by simp
  qed
  moreover have "j + (t' - j) = t'" using Pt' by (simp add: P_def)
  ultimately have y4: "MState t' [] \<in> set (cands ?f tx (Rep False 0 None ?N) (MState j []))"
    unfolding cands_Rep_iff by (intro exI[of _ "t' - j"]) simp
  have "t' < length tx" "is_terminator (tx ! t')" using Pt' t'_le t(2) by (auto simp: P_def)
  then have x5: "MState (t' + 1) [] \<in> set (cands ?f tx (Atom (Cls False terminator)) (MState t' []))"
    unfolding cands.simps(1) terminator_ok by simp
  have "MState (t' + 1) [] \<in> set (cands ?f tx (sentence_pattern kw w) (MState k []))"
    unfolding sentence_pattern_parts cands_Seq_iff
    using y1 y2 y3 y4 x5 by blast
  then show ?thesis by auto
qed

lemma find_from_nonempty:
  assumes "i \<le> s" "s \<le> length tx" "cands f tx r (MState s []) \<noteq> []"
  shows "find_from f r tx i \<noteq> []"
  using assms
proof (induction "s - i" arbitrary: i)
  case 0
  then have "i = s" by simp
  then show ?case
    using 0 find_from_unfold[of s tx f r] by (auto split: list.splits)
next
  case (Suc n)
  have le: "i \<le> length tx" using Suc.prems by simp
  show ?case
  proof (cases "cands f tx r (MState i [])")
    case Nil
    have "find_from f r tx (i + 1) \<noteq> []"
      using Suc.hyps(1)[of "i + 1"] Suc.hyps(2) Suc.prems by simp
    then show ?thesis using find_from_unfold[OF le, of f r] Nil by simp
  next
    case (Cons y ys)
    then show ?thesis using find_from_unfold[OF le, of f r] by simp
  qed
qed

lemma sentence_matches_sound:
  assumes "m \<in> set (re_finditer IGNORECASE_DOTALL (sentence_pattern kw 150) tx)"
  shows "sentence_span tx kw (mstart m) (mend m)"
proof -
  from find_from_sound[OF assms[unfolded re_finditer_def]]
  obtain xs where s: "mstart m \<le> length tx"
    and c: "cands IGNORECASE_DOTALL tx (sentence_pattern kw 150) (MState (mstart m) [])
              = MState (mend m) (mcaps m) # xs" by blast
  have "MState (mend m) (mcaps m)
          \<in> set (cands IGNORECASE_DOTALL tx (sentence_pattern kw 150) (MState (mstart m) []))"
    unfolding c by simp
  from sentence_cands_sound[OF this s] show ?thesis
    unfolding sentence_span_def by simp
qed

lemma sentence_matches_nonempty:
  "(re_finditer IGNORECASE_DOTALL (sentence_pattern kw 150) tx \<noteq> []) =
     (\<exists>k t. occurs_at tx kw k \<and> k + length kw \<le> t \<and> t < length tx \<and> is_terminator (tx ! t))"
proof
  assume "re_finditer IGNORECASE_DOTALL (sentence_pattern kw 150) tx \<noteq> []"
  then obtain m where "m \<in> set (re_finditer IGNORECASE_DOTALL (sentence_pattern kw 150) tx)"
    by (cases "re_finditer IGNORECASE_DOTALL (sentence_pattern kw 150) tx") auto
  from sentence_matches_sound[OF this] obtain a k where
    k: "k + length kw < mend m" "mend m \<le> length tx" "occurs_at tx kw k"
       "is_terminator (tx ! (mend m - 1))"
    unfolding sentence_span_def by blast
  have "occurs_at tx kw k \<and> k + length kw \<le> mend m - 1 \<and> mend m - 1 < length tx
          \<and> is_terminator (tx ! (mend m - 1))"
    using k by auto
  then show "\<exists>k t. occurs_at tx kw k \<and> k + length kw \<le> t \<and> t < length tx \<and> is_terminator (tx ! t)"
    by blast
next
  assume "\<exists>k t. occurs_at tx kw k \<and> k + length kw \<le> t \<and> t < length tx \<and> is_terminator (tx ! t)"
  then obtain k t where k: "occurs_at tx kw k" "k + length kw \<le> t" "t < length tx"
    "is_terminator (tx ! t)" by blast
  have c: "cands IGNORECASE_DOTALL tx (sentence_pattern kw 150) (MState k []) \<noteq> []"
    using k by (rule sentence_cands_complete)
  have "k \<le> length tx" using k(2,3) by simp
  from find_from_nonempty[OF _ this c, of 0]
  show "re_finditer IGNORECASE_DOTALL (sentence_pattern kw 150) tx \<noteq> []"
    unfolding re_finditer_def by simp
qed

lemma terminator_not_space: "is_terminator c \<Longrightarrow> \<not> is_space c"
  by (auto simp: is_terminator_def is_space_def)

lemma strip_nonempty:
  assumes "s \<noteq> []" "\<not> is_space (last s)"
  shows "strip s \<noteq> []"
proof -
  have mem: "last s \<in> set s" using assms(1) by simp
  have d: "dropWhile is_space s \<noteq> []"
    using mem assms(2) by (auto simp: dropWhile_eq_Nil_conv)
  have "s = takeWhile is_space s @ dropWhile is_space s" by simp
  then have "last s = last (dropWhile is_space s)" using d by (metis last_appendR)
  then have "last s \<in> set (dropWhile is_space s)" using d by simp
  then have "last s \<in> set (rev (dropWhile is_space s))" by simp
  then have "dropWhile is_space (rev (dropWhile is_space s)) \<noteq> []"
    using assms(2) by (auto simp: dropWhile_eq_Nil_conv)
  then show ?thesis by (simp add: strip_def)
qed

lemma sentence_stripped_nonempty:
  assumes "m \<in> set (re_finditer IGNORECASE_DOTALL (sentence_pattern kw 150) tx)"
  shows "strip (slice tx (mstart m) (mend m)) \<noteq> []"
proof -
  from sentence_matches_sound[OF assms] obtain a k where
    k: "mstart m \<le> a" "a \<le> k" "k + length kw < mend m" "mend m \<le> length tx"
       "is_terminator (tx ! (mend m - 1))"
    unfolding sentence_span_def by blast
  let ?s = "slice tx (mstart m) (mend m)"
  have len: "length ?s = mend m - mstart m" using k by (simp add: slice_def)
  then have ne: "?s \<noteq> []" using k by auto
  have "last ?s = ?s ! (mend m - mstart m - 1)" using ne len by (simp add: last_conv_nth)
  also have "\<dots> = tx ! (mend m - 1)" using k by (auto simp: slice_def)
  finally have "\<not> is_space (last ?s)" using k(5) terminator_not_space by simp
  with ne show ?thesis by (rule strip_nonempty)
qed

lemma find_sentence_eq:
  "find_sentence_with_keyword tx kw 150 =
     map (\<lambda>m. take 300 (strip (slice tx (mstart m) (mend m))))
       (take 3 (re_finditer IGNORECASE_DOTALL (sentence_pattern kw 150) tx))"
proof -
  let ?ms = "re_finditer IGNORECASE_DOTALL (sentence_pattern kw 150) tx"
  have "filter (\<lambda>sentence. sentence \<noteq> []) (map (\<lambda>mt. strip (match_group tx mt 0)) ?ms)
          = map (\<lambda>mt. strip (match_group tx mt 0)) ?ms"
    using sentence_stripped_nonempty[of _ kw tx] by (auto simp: filter_id_conv match_group_def)
  then show ?thesis
    unfolding find_sentence_with_keyword_def by (simp add: take_map match_group_def)
qed

lemma starts_with_iff: "starts_with s sub \<longleftrightarrow> take (length sub) s = sub"
  by (induction s sub rule: starts_with.induct) auto

lemma str_contains_iff:
  "str_contains s sub \<longleftrightarrow> (\<exists>k. k + length sub \<le> length s \<and> slice s k (k + length sub) = sub)"
proof (induction s)
  case Nil
  show ?case by (cases sub) (auto simp: slice_def)
next
  case (Cons c cs)
  have "str_contains (c # cs) sub \<longleftrightarrow> take (length sub) (c # cs) = sub \<or> str_contains cs sub"
    by (simp add: starts_with_iff del: starts_with.simps)
  also have "\<dots> \<longleftrightarrow> (\<exists>k. k + length sub \<le> length (c # cs)
                         \<and> slice (c # cs) k (k + length sub) = sub)"
  proof
    assume "take (length sub) (c # cs) = sub \<or> str_contains cs sub"
    then show "\<exists>k. k + length sub \<le> length (c # cs) \<and> slice (c # cs) k (k + length sub) = sub"
    proof
      assume t: "take (length sub) (c # cs) = sub"
      have "length (take (length sub) (c # cs)) \<le> length (c # cs)" by simp
      then have "length sub \<le> length (c # cs)" unfolding t .
      with t show ?thesis by (intro exI[of _ 0]) (simp add: slice_def)
    next
      assume "str_contains cs sub"
      then obtain k where "k + length sub \<le> length cs" "slice cs k (k + length sub) = sub"
        using Cons.IH by blast
      then show ?thesis by (intro exI[of _ "Suc k"]) (simp add: slice_def)
    qed
  next
    assume "\<exists>k. k + length sub \<le> length (c # cs) \<and> slice (c # cs) k (k + length sub) = sub"
    then obtain k where k: "k + length sub \<le> length (c # cs)"
      "slice (c # cs) k (k + length sub) = sub" by blast
    show "take (length sub) (c # cs) = sub \<or> str_contains cs sub"
    proof (cases k)
      case 0
      with k show ?thesis by (simp add: slice_def)
    next
      case (Suc k')
      with k have "k' + length sub \<le> length cs \<and> slice cs k' (k' + length sub) = sub"
        by (simp add: slice_def)
      then show ?thesis using Cons.IH by blast
    qed
  qed
  finally show ?case .
qed

lemma keyword_present:
  assumes "lower kw = kw"
  shows "str_contains (lower tx) kw = (\<exists>k. occurs_at tx kw k)"
proof -
  have "slice (lower tx) k (k + length kw) = lower (slice tx k (k + length kw))" for k
    by (simp add: slice_def lower_def take_map drop_map)
  then show ?thesis
    unfolding str_contains_iff occurs_at_def using assms by (simp add: lower_def)
qed

lemma first_hit_eq:
  assumes "(risk_type, info) \<in> set RISK_PATTERNS"
  shows "first_hit tx risk_type info =
     (case find (str_contains (lower tx)) (info_keywords info) of
        None \<Rightarrow> []
      | Some keyword \<Rightarrow>
          map (\<lambda>m. \<lparr>rtype = risk_type, risk_level = info_level info,
                     description = info_description info,
                     evidence = take 200 (take 300 (strip (slice tx (mstart m) (mend m)))),
                     severity_score = (if info_level info = ''high'' then 85 else 55)\<rparr>)
              (take 3 (re_finditer IGNORECASE_DOTALL (sentence_pattern keyword 150) tx)))"
proof -
  from assms risk_patterns_levels
  have "info_level info = ''high'' \<or> info_level info = ''medium''"
    by (auto simp: list_all_iff)
  then have sev: "assign_severity_score (info_level info)
                    = (if info_level info = ''high'' then 85 else 55)"
    by (auto simp: assign_severity_score_def)
  show ?thesis
    unfolding first_hit_def find_sentence_eq make_risk_def sev
    by (simp add: comp_def split: option.splits)
qed

text \<open>
  Claim C4. For each risk type, in the order of the table, the keywords are tried in
  their order; the first one that occurs in the text, whatever the case of the letters,
  gives the findings of that type and ends the scan of its keywords. There is one finding
  for each of the first three matches of the sentence pattern for that keyword: its
  evidence is the first 200 characters of the first 300 characters of the matched text
  without the white space at its ends. A finding equal in every field to an earlier one
  is left out. A match of the sentence pattern is a span of the text with an occurrence of
  the keyword that ends at the first terminator after it; the matched text is never
  blank; the matches follow one another in the text; and there is a match exactly when
  the keyword occurs somewhere with a terminator after it.
\<close>

theorem detect_risks_first_hit:
  "detect_risks text =
     first_occurrences
       (concat (map (\<lambda>(risk_type, info).
                  case find (str_contains (lower text)) (info_keywords info) of
                    None \<Rightarrow> []
                  | Some keyword \<Rightarrow>
                      map (\<lambda>m. \<lparr>rtype = risk_type, risk_level = info_level info,
                                 description = info_description info,
                                 evidence = take 200 (take 300
                                   (strip (slice text (mstart m) (mend m)))),
                                 severity_score = (if info_level info = ''high'' then 85 else 55)\<rparr>)
                          (take 3 (re_finditer IGNORECASE_DOTALL
                                     (sentence_pattern keyword 150) text)))
                RISK_PATTERNS))
   \<and> list_all (\<lambda>(risk_type, info).
         list_all (\<lambda>kw. str_contains (lower text) kw = (\<exists>k. occurs_at text kw k))
           (info_keywords info)) RISK_PATTERNS
   \<and> list_all (\<lambda>m. sentence_span text keyword (mstart m) (mend m)
                   \<and> strip (slice text (mstart m) (mend m)) \<noteq> [])
        (re_finditer IGNORECASE_DOTALL (sentence_pattern keyword 150) text)
   \<and> in_order (re_finditer IGNORECASE_DOTALL (sentence_pattern keyword 150) text)
   \<and> (re_finditer IGNORECASE_DOTALL (sentence_pattern keyword 150) text \<noteq> []) =
       (\<exists>k t. occurs_at text keyword k \<and> k + length keyword \<le> t \<and> t < length text
              \<and> is_terminator (text ! t))
   \<and> distinct (detect_risks text)"
proof -
  let ?G = "\<lambda>(risk_type, info).
                  case find (str_contains (lower text)) (info_keywords info) of
                    None \<Rightarrow> []
                  | Some keyword \<Rightarrow>
                      map (\<lambda>m. \<lparr>rtype = risk_type, risk_level = info_level info,
                                 description = info_description info,
                                 evidence = take 200 (take 300
                                   (strip (slice text (mstart m) (mend m)))),
                                 severity_score = (if info_level info = ''high'' then 85 else 55)\<rparr>)
                          (take 3 (re_finditer IGNORECASE_DOTALL
                                     (sentence_pattern keyword 150) text))"
  have "map (\<lambda>(rt, info). first_hit text rt info) RISK_PATTERNS = map ?G RISK_PATTERNS"
  proof (rule map_cong[OF refl])
    fix p assume p: "p \<in> set RISK_PATTERNS"
    obtain rt info where pi: "p = (rt, info)" by (cases p)
    from first_hit_eq[OF p[unfolded pi], of "text"]
    show "(case p of (rt, info) \<Rightarrow> first_hit text rt info) = ?G p"
      unfolding pi by simp
  qed
  then have p1: "detect_risks text = first_occurrences (concat (map ?G RISK_PATTERNS))"
    by (simp only: detect_risks_eq)
  have p2: "list_all (\<lambda>(risk_type, info).
         list_all (\<lambda>kw. str_contains (lower text) kw = (\<exists>k. occurs_at text kw k))
           (info_keywords info)) RISK_PATTERNS"
  proof -
    have "str_contains (lower text) kw = (\<exists>k. occurs_at text kw k)"
      if "(rt, info) \<in> set RISK_PATTERNS" "kw \<in> set (info_keywords info)" for rt info kw
    proof -
      from that risk_patterns_lowercase have "lower kw = kw" by (auto simp: list_all_iff)
      then show ?thesis by (rule keyword_present)
    qed
    then show ?thesis unfolding list_all_iff by blast
  qed
  have p3: "list_all (\<lambda>m. sentence_span text keyword (mstart m) (mend m)
                   \<and> strip (slice text (mstart m) (mend m)) \<noteq> [])
        (re_finditer IGNORECASE_DOTALL (sentence_pattern keyword 150) text)"
    using sentence_matches_sound[of _ keyword "text"] sentence_stripped_nonempty[of _ keyword "text"]
    by (auto simp: list_all_iff)
  have p4: "in_order (re_finditer IGNORECASE_DOTALL (sentence_pattern keyword 150) text)"
    unfolding re_finditer_def by (rule find_from_in_order)
  have p6: "distinct (detect_risks text)"
    by (simp add: detect_risks_eq distinct_first_occurrences)
  from p1 p2 p3 p4 sentence_matches_nonempty[of keyword "text"] p6
  show ?thesis by blast
qed

text \<open>
  Claim C2. Every finding of \<open>detect_risks\<close> has the level high or medium, so the score
  of its output is at most 30 before and after the cap of 100, and the category is
  always Low Risk.
\<close>

theorem detect_risks_score_low:
  "fst (calculate_risk_score (detect_risks text)) \<le> 30
   \<and> snd (calculate_risk_score (detect_risks text)) = ''Low Risk''
   \<and> snd (calculate_risk_score (detect_risks text)) \<noteq> ''Medium Risk''
   \<and> snd (calculate_risk_score (detect_risks text)) \<noteq> ''High Risk''
   \<and> list_all (\<lambda>r. risk_level r = ''high'' \<or> risk_level r = ''medium'') (detect_risks text)
   \<and> (level_count ''high'' (detect_risks text) * 30
        + level_count ''medium'' (detect_risks text) * 15
        + level_count ''low'' (detect_risks text) * 5)
       div max 1 (int (length (detect_risks text))) \<le> 30"
proof -
  define rs where "rs = detect_risks text"
  have lv: "list_all (\<lambda>r. risk_level r = ''high'' \<or> risk_level r = ''medium'') rs"
    unfolding rs_def by (rule detect_risks_levels)
  then have "\<forall>r \<in> set rs. risk_level r = ''high'' \<or> risk_level r = ''medium''"
    by (simp add: list_all_iff)
  then have sum: "level_count ''high'' rs * 30 + level_count ''medium'' rs * 15
                    + level_count ''low'' rs * 5 \<le> 30 * int (length rs)"
    by (rule high_medium_bound)
  have "30 * int (length rs) \<le> 30 * max 1 (int (length rs))" by simp
  with sum have "level_count ''high'' rs * 30 + level_count ''medium'' rs * 15
                    + level_count ''low'' rs * 5 \<le> 30 * max 1 (int (length rs))" by linarith
  moreover have "0 < max 1 (int (length rs))" by simp
  ultimately have raw: "(level_count ''high'' rs * 30 + level_count ''medium'' rs * 15
                    + level_count ''low'' rs * 5) div max 1 (int (length rs)) \<le> 30"
    by (metis mult.commute zdiv_mono1 nonzero_mult_div_cancel_left less_irrefl)
  have sc: "fst (calculate_risk_score rs) \<le> 30"
    using raw by (simp add: calculate_risk_score_def Let_def)
  have cat: "snd (calculate_risk_score rs) = risk_category (fst (calculate_risk_score rs))"
    by (simp add: calculate_risk_score_def Let_def risk_category_def)
  have low: "snd (calculate_risk_score rs) = ''Low Risk''"
    unfolding cat using sc by (simp add: risk_category_def)
  from sc low lv raw show ?thesis unfolding rs_def by simp
qed

section \<open>The empty text\<close>

lemma empty_clauses: "extract_clauses [] = []"
  by (simp add: extract_clauses_def re_eval pat_defs del: One_nat_def)

lemma empty_definitions: "extract_definitions [] = Map.empty"
  by (simp add: extract_definitions_def re_eval pat_defs del: One_nat_def)

lemma empty_parties: "extract_parties [] = []"
  by (simp add: extract_parties_def re_eval pat_defs del: One_nat_def)

lemma empty_dates: "extract_dates [] = []"
  by (simp add: extract_dates_def re_eval pat_defs del: One_nat_def)

lemma empty_amounts: "extract_amounts [] = []"
  by (simp add: extract_amounts_def re_eval pat_defs del: One_nat_def)

lemma named_in_empty: "named_in [] name = False"
  by (simp add: named_in_def re_eval del: One_nat_def)

lemma empty_jurisdictions: "extract_jurisdictions [] = []"
  by (simp add: extract_jurisdictions_def named_in_empty first_occurrences_def list_set_def)

lemma empty_emails: "extract_emails [] = []"
  by (simp add: extract_emails_def re_eval pat_defs del: One_nat_def)

lemma empty_phone_numbers: "extract_phone_numbers [] = []"
  by (simp add: extract_phone_numbers_def re_eval pat_defs del: One_nat_def)

lemma empty_urls: "extract_urls [] = []"
  by (simp add: extract_urls_def re_eval pat_defs del: One_nat_def)

lemma empty_risks: "detect_risks [] = []"
  by (simp add: detect_risks_def RISK_PATTERNS_def lower_def)

lemma empty_scores: "score_types (lower []) CLASSIFICATION_PATTERNS [] = []"
  by (simp add: CLASSIFICATION_PATTERNS_def lower_def)

lemma fold_update_map_of:
  "fold (\<lambda>x m. m(k x \<mapsto> v x)) xs m0 = m0 ++ map_of (rev (map (\<lambda>x. (k x, v x)) xs))"
proof (induction xs arbitrary: m0)
  case Nil
  then show ?case by simp
next
  case (Cons x xs)
  have "fold (\<lambda>x m. m(k x \<mapsto> v x)) (x # xs) m0
          = fold (\<lambda>x m. m(k x \<mapsto> v x)) xs (m0(k x \<mapsto> v x))"
    by (simp only: fold_simps comp_apply)
  also have "\<dots> = (m0(k x \<mapsto> v x)) ++ map_of (rev (map (\<lambda>x. (k x, v x)) xs))"
    by (rule Cons.IH)
  also have "\<dots> = m0 ++ map_of (rev (map (\<lambda>x. (k x, v x)) (x # xs)))"
    by (rule ext) (simp add: map_add_def split: option.splits)
  finally show ?case .
qed

lemma extract_definitions_map_of:
  "extract_definitions text =
     map_of (rev (map (\<lambda>mt. (strip (match_group text mt 1), strip (match_group text mt 2)))
                      (re_finditer IGNORECASE definition_pattern text)))"
  unfolding extract_definitions_def by (simp add: fold_update_map_of)

lemma extract_clauses_length:
  "length (extract_clauses text) = length (re_finditer MULTILINE clause_pattern text)"
  by (simp add: extract_clauses_def Let_def)

lemma pattern_names:
  "''General Contract'' \<notin> fst ` set CLASSIFICATION_PATTERNS"
  by (simp add: CLASSIFICATION_PATTERNS_def)

lemma score_types_names:
  "fst ` set (score_types low ps []) \<subseteq> fst ` set ps"
  by (force simp: score_types_eq)

lemma classify_general_iff:
  "(all_matches (classify_contract text) = [])
     = (primary_type (classify_contract text) = ''General Contract'')"
proof -
  define sc where "sc = score_types (lower text) CLASSIFICATION_PATTERNS []"
  show ?thesis
  proof (cases sc)
    case Nil
    then show ?thesis by (simp add: classify_contract_def sc_def[symmetric] Let_def)
  next
    case (Cons kv rest)
    from max_key_from_first[of kv rest] obtain i where i: "i < length sc"
      "max_key_from kv rest = sc ! i" unfolding Cons by blast
    have "sc ! i \<in> set sc" using i(1) by simp
    then have "fst (sc ! i) \<in> fst ` set CLASSIFICATION_PATTERNS"
      using score_types_names[of "lower text" CLASSIFICATION_PATTERNS] unfolding sc_def by blast
    then have "fst (sc ! i) \<noteq> ''General Contract''" using pattern_names by metis
    then show ?thesis
      using i(2) by (simp add: classify_contract_def sc_def[symmetric] Let_def Cons)
  qed
qed

text \<open>
  Claim C9. On the empty text every analyzer returns its empty or default result. The
  analyzers are total functions (each loop of the model has its termination proof), and
  a text without matches gives an empty result: there are as many clauses as header
  matches, the definitions are those of the matches, and the type is General Contract
  exactly when no bucket qualifies.
\<close>

theorem analyzers_on_empty_text:
  "extract_clauses [] = []
   \<and> extract_definitions [] = Map.empty
   \<and> extract_entities [] =
        \<lparr>parties = [], dates = [], amounts = [], jurisdictions = [], emails = [],
         phone_numbers = [], urls = []\<rparr>
   \<and> detect_risks [] = []
   \<and> calculate_risk_score (detect_risks []) = (0, ''Low Risk'')
   \<and> primary_type (classify_contract []) = ''General Contract''
   \<and> confidence (classify_contract []) = 0
   \<and> all_matches (classify_contract []) = []
   \<and> length (extract_clauses text) = length (re_finditer MULTILINE clause_pattern text)
   \<and> extract_definitions text =
        map_of (rev (map (\<lambda>mt. (strip (match_group text mt 1), strip (match_group text mt 2)))
                         (re_finditer IGNORECASE definition_pattern text)))
   \<and> (all_matches (classify_contract text) = [])
       = (primary_type (classify_contract text) = ''General Contract'')"
proof -
  have ents: "extract_entities [] =
        \<lparr>parties = [], dates = [], amounts = [], jurisdictions = [], emails = [],
         phone_numbers = [], urls = []\<rparr>"
    by (simp add: extract_entities_def empty_parties empty_dates empty_amounts
        empty_jurisdictions empty_emails empty_phone_numbers empty_urls)
  have score: "calculate_risk_score (detect_risks []) = (0, ''Low Risk'')"
    by (simp add: empty_risks calculate_risk_score_def)
  have cls: "primary_type (classify_contract []) = ''General Contract''"
    "confidence (classify_contract []) = 0" "all_matches (classify_contract []) = []"
    by (simp_all add: classify_contract_def empty_scores Let_def)
  from empty_clauses empty_definitions ents empty_risks score cls
    extract_clauses_length[of "text"] extract_definitions_map_of[of "text"]
    classify_general_iff[of "text"]
  show ?thesis by blast
qed

section \<open>Properties of the entity extractor\<close>

lemma distinct_list_set: "distinct (list_set xs)"
  by (simp add: list_set_def first_occurrences_def)

lemma repeated_amounts:
  "extract_amounts ''$5 $5'' = [(''$5'', ''Currency''), (''$5'', ''Currency'')]"
  by (simp add: extract_amounts_def re_eval pat_defs del: One_nat_def)

text \<open>
  Claim C7. The lists of dates, jurisdictions, emails, phone numbers, urls and parties
  have no repeated entry; the list of amounts is returned as matched, and a text that
  names the same amount twice gives the same pair twice.
\<close>

theorem entity_lists_distinct:
  "distinct (dates (extract_entities text))
   \<and> distinct (jurisdictions (extract_entities text))
   \<and> distinct (emails (extract_entities text))
   \<and> distinct (phone_numbers (extract_entities text))
   \<and> distinct (urls (extract_entities text))
   \<and> distinct (parties (extract_entities text))
   \<and> amounts (extract_entities text) = extract_amounts text
   \<and> amounts (extract_entities ''$5 $5'') = [(''$5'', ''Currency''), (''$5'', ''Currency'')]
   \<and> \<not> distinct (amounts (extract_entities ''$5 $5''))"
  by (simp add: extract_entities_def extract_dates_def extract_jurisdictions_def
      extract_emails_def extract_phone_numbers_def extract_urls_def extract_parties_def
      distinct_list_set repeated_amounts)

section \<open>The scenario\<close>

lemma lit_beyond: "length tx \<le> j \<Longrightarrow> lit f tx (p # ps) j = None"
  by simp

lemma sentence_no_keyword:
  assumes "\<And>j. pos st \<le> j \<Longrightarrow> lit f tx kw j = None"
  shows "cands f tx (sentence_pattern kw w) st = []"
  using assms by (auto simp: sentence_pattern_def)

lemma list_all_uptD: "list_all P [a..<b] \<Longrightarrow> a \<le> j \<Longrightarrow> j < b \<Longrightarrow> P j"
  by (simp add: list_all_iff)

lemma sentence_scan_empty:
  assumes "list_all (\<lambda>j. lit f tx (p # ps) j = None) [i..<length tx]"
  shows "find_from f (sentence_pattern (p # ps) w) tx i = []"
proof (rule find_from_no_cands)
  fix j assume j: "i \<le> j" "j \<le> length tx"
  show "cands f tx (sentence_pattern (p # ps) w) (MState j []) = []"
  proof (rule sentence_no_keyword)
    fix j' assume "pos (MState j []) \<le> j'"
    then have "i \<le> j'" using j by simp
    show "lit f tx (p # ps) j' = None"
    proof (cases "j' < length tx")
      case True
      from list_all_uptD[OF assms \<open>i \<le> j'\<close> True] show ?thesis .
    next
      case False
      then show ?thesis by simp
    qed
  qed
qed

lemma termination_first:
  "rmatch IGNORECASE_DOTALL scenario_text (sentence_pattern ''termination'' 150) (MState 0 []) Some
     = Some (MState 68 [])"
  by (simp add: re_eval scenario_eval sentence_pattern_def del: One_nat_def)

lemma termination_rest:
  "find_from IGNORECASE_DOTALL (sentence_pattern ''termination'' 150) scenario_text 68 = []"
  by (rule sentence_scan_empty)
     (simp add: scenario_eval chr_eval chr_eq_def IGNORECASE_DOTALL_def del: One_nat_def)

lemma termination_matches:
  "re_finditer IGNORECASE_DOTALL (sentence_pattern ''termination'' 150) scenario_text
     = [Match 0 68 []]"
  unfolding re_finditer_def
  by (subst find_from.simps) (simp add: termination_first termination_rest scenario_length)

lemma confidential_matches:
  "re_finditer IGNORECASE_DOTALL (sentence_pattern ''confidential'' 150) scenario_text
     = [Match 0 120 []]"
  by (simp add: re_eval scenario_eval sentence_pattern_def del: One_nat_def)

lemma scenario_lower:
  "lower scenario_text =
     ''1. termination\<newline>this agreement may be terminated with 30 days notice.\<newline>'' @
     ''2. confidentiality\<newline>all information is confidential.''"
  by (simp add: scenario_text_def lower_def chr_eval)

lemma termination_sentences:
  "find_sentence_with_keyword scenario_text ''termination'' 150 =
     [''1. TERMINATION\<newline>This agreement may be terminated with 30 days notice.'']"
  by (simp add: find_sentence_with_keyword_def termination_matches match_group_def slice_def strip_def)
     (simp add: scenario_text_def chr_eval)

lemma confidential_sentences:
  "find_sentence_with_keyword scenario_text ''confidential'' 150 =
     [''1. TERMINATION\<newline>This agreement may be terminated with 30 days notice.\<newline>'' @
      ''2. CONFIDENTIALITY\<newline>All information is confidential.'']"
  by (simp add: find_sentence_with_keyword_def confidential_matches match_group_def slice_def strip_def)
     (simp add: scenario_text_def chr_eval)

lemma scenario_hits:
  "map (\<lambda>(rt, info). first_hit scenario_text rt info) RISK_PATTERNS =
     [[], [],
      [\<lparr>rtype = ''Termination Clauses'', risk_level = ''medium'',
        description = ''Clauses specifying termination rights'',
        evidence = ''1. TERMINATION\<newline>This agreement may be terminated with 30 days notice.'',
        severity_score = 55\<rparr>],
      [], [], [], [],
      [\<lparr>rtype = ''Confidentiality'', risk_level = ''medium'',
        description = ''Confidentiality and NDA clauses'',
        evidence =
          ''1. TERMINATION\<newline>This agreement may be terminated with 30 days notice.\<newline>'' @
          ''2. CONFIDENTIALITY\<newline>All information is confidential.'',
        severity_score = 55\<rparr>],
      [], []]"
  unfolding first_hit_def scenario_lower
  by (simp add: RISK_PATTERNS_def termination_sentences confidential_sentences make_risk_def
      assign_severity_score_def)

lemma scenario_risks:
  "detect_risks scenario_text =
     [\<lparr>rtype = ''Termination Clauses'', risk_level = ''medium'',
       description = ''Clauses specifying termination rights'',
       evidence = ''1. TERMINATION\<newline>This agreement may be terminated with 30 days notice.'',
       severity_score = 55\<rparr>,
      \<lparr>rtype = ''Confidentiality'', risk_level = ''medium'',
       description = ''Confidentiality and NDA clauses'',
       evidence =
         ''1. TERMINATION\<newline>This agreement may be terminated with 30 days notice.\<newline>'' @
         ''2. CONFIDENTIALITY\<newline>All information is confidential.'',
       severity_score = 55\<rparr>]"
  unfolding detect_risks_eq scenario_hits by (simp add: first_occurrences_def)

lemma map_nth_fun: "map (\<lambda>i. g (xs ! i)) [0..<length xs] = map g xs"
proof -
  have "map (\<lambda>i. g (xs ! i)) [0..<length xs] = map g (map ((!) xs) [0..<length xs])"
    by (simp add: comp_def)
  then show ?thesis by (simp only: map_nth)
qed

lemma clause_numbers:
  "map number (extract_clauses tx) = map (\<lambda>mt. match_group tx mt 1) (re_finditer MULTILINE clause_pattern tx)"
proof -
  have "map number (extract_clauses tx)
      = map (\<lambda>i. match_group tx (re_finditer MULTILINE clause_pattern tx ! i) 1)
            [0..<length (re_finditer MULTILINE clause_pattern tx)]"
    by (simp add: extract_clauses_def clause_at_def Let_def comp_def)
  then show ?thesis
    using map_nth_fun[of "\<lambda>mt. match_group tx mt 1" "re_finditer MULTILINE clause_pattern tx"]
    by simp
qed

lemma clause_headings:
  "map heading (extract_clauses tx)
     = map (\<lambda>mt. strip (match_group tx mt 2)) (re_finditer MULTILINE clause_pattern tx)"
proof -
  have "map heading (extract_clauses tx)
      = map (\<lambda>i. strip (match_group tx (re_finditer MULTILINE clause_pattern tx ! i) 2))
            [0..<length (re_finditer MULTILINE clause_pattern tx)]"
    by (simp add: extract_clauses_def clause_at_def Let_def comp_def)
  then show ?thesis
    using map_nth_fun[of "\<lambda>mt. strip (match_group tx mt 2)" "re_finditer MULTILINE clause_pattern tx"]
    by simp
qed

lemma scenario_clause_matches:
  "re_finditer MULTILINE clause_pattern scenario_text
    = [Match 0 14 [(2, 3, 14), (1, 0, 1)], Match 69 87 [(2, 72, 87), (1, 69, 70)]]"
  by (simp add: re_eval scenario_eval clause_pattern_def del: One_nat_def)

text \<open>
  Claim C6. On the scenario text the segmenter returns two clauses, numbered 1 and 2,
  with the headings TERMINATION and CONFIDENTIALITY; the detector returns one finding for
  Termination Clauses and one for Confidentiality, both of level medium; their score is 15
  and the category Low Risk.
\<close>

theorem scenario_results:
  "map number (extract_clauses scenario_text) = [''1'', ''2'']
   \<and> map heading (extract_clauses scenario_text) = [''TERMINATION'', ''CONFIDENTIALITY'']
   \<and> map (\<lambda>r. (rtype r, risk_level r)) (detect_risks scenario_text)
        = [(''Termination Clauses'', ''medium''), (''Confidentiality'', ''medium'')]
   \<and> calculate_risk_score (detect_risks scenario_text) = (15, ''Low Risk'')"
proof -
  have n: "map number (extract_clauses scenario_text) = [''1'', ''2'']"
    unfolding clause_numbers scenario_clause_matches
    by (simp add: match_group_def slice_def scenario_text_def)
  have h: "map heading (extract_clauses scenario_text) = [''TERMINATION'', ''CONFIDENTIALITY'']"
    unfolding clause_headings scenario_clause_matches
    by (simp add: match_group_def slice_def strip_def scenario_text_def chr_eval)
  have r: "map (\<lambda>r. (rtype r, risk_level r)) (detect_risks scenario_text)
        = [(''Termination Clauses'', ''medium''), (''Confidentiality'', ''medium'')]"
    unfolding scenario_risks by simp
  have s: "calculate_risk_score (detect_risks scenario_text) = (15, ''Low Risk'')"
    unfolding scenario_risks
    by (simp add: calculate_risk_score_def level_count_def risk_category_def Let_def)
  from n h r s show ?thesis by blast
qed

section \<open>Properties of the clause segmenter\<close>

subsection \<open>Character facts\<close>

lemma digit_not_dot: "is_digit c \<Longrightarrow> c \<noteq> CHR ''.''"
  by (auto simp: is_digit_def)

lemma space_not_upper: "is_space c \<Longrightarrow> \<not> is_upper c"
  by (auto simp: is_space_def is_upper_def Let_def)

lemma upper_not_newline: "is_upper c \<Longrightarrow> c \<noteq> CHR 0x0A"
  by (auto simp: is_upper_def)

lemma space_not_digit: "is_space c \<Longrightarrow> \<not> is_digit c"
  by (auto simp: is_space_def is_digit_def Let_def)

lemma upper_not_digit: "is_upper c \<Longrightarrow> \<not> is_digit c"
  by (auto simp: is_upper_def is_digit_def Let_def)

lemma newline_not_digit: "\<not> is_digit (CHR 0x0A)"
  by (simp add: is_digit_def)

lemma dot_not_digit: "\<not> is_digit (CHR ''.'')"
  by (simp add: is_digit_def)

lemma atom_ok_multiline:
  "atom_ok MULTILINE digit c = is_digit c"
  "atom_ok MULTILINE space c = is_space c"
  "atom_ok MULTILINE (Cls False [Rng CHR ''A'' CHR ''Z'']) c = is_upper c"
  "atom_ok MULTILINE (Cls False [Rng CHR ''A'' CHR ''Z'', Space]) c = (is_upper c \<or> is_space c)"
  by (simp_all add: MULTILINE_def digit_def space_def in_items_def rng_upper)

subsection \<open>Greedy and lazy repetitions in a sequence\<close>

lemma greedy_last:
  assumes "\<And>n. n < N \<Longrightarrow> h n = []"
  shows "concat (map h (rev [lo..<Suc N])) = (if lo \<le> N then h N else [])"
proof (cases "lo \<le> N")
  case True
  then have "[lo..<Suc N] = [lo..<N] @ [N]" by simp
  moreover have "concat (map h (rev [lo..<N])) = []" using assms by simp
  ultimately show ?thesis using True by simp
next
  case False
  then show ?thesis by simp
qed

lemma concat_first:
  assumes "xs = ys @ a # zs" "\<And>y. y \<in> set ys \<Longrightarrow> h y = []" "h a = b # bs"
  shows "\<exists>cs. concat (map h xs) = b # cs"
proof -
  have c: "concat (map h ys) = []" using assms(2) by simp
  have "concat (map h xs) = concat (map h ys) @ h a @ concat (map h zs)"
    unfolding assms(1) by simp
  also have "\<dots> = b # (bs @ concat (map h zs))"
    unfolding c assms(3) by simp
  finally show ?thesis by blast
qed

lemma concat_hdD:
  assumes "concat (map h xs) = b # cs"
  shows "\<exists>ys a zs bs. xs = ys @ a # zs \<and> (\<forall>y \<in> set ys. h y = []) \<and> h a = b # bs"
  using assms
proof (induction xs)
  case Nil
  then show ?case by simp
next
  case (Cons x xs)
  show ?case
  proof (cases "h x")
    case Nil
    with Cons.prems have "concat (map h xs) = b # cs" by simp
    from Cons.IH[OF this] obtain ys a zs bs
      where "xs = ys @ a # zs" "\<forall>y \<in> set ys. h y = []" "h a = b # bs" by blast
    then have "x # xs = (x # ys) @ a # zs \<and> (\<forall>y \<in> set (x # ys). h y = []) \<and> h a = b # bs"
      using Nil by simp
    then show ?thesis by blast
  next
    case (Cons b' bs')
    with Cons.prems have "b' = b" by simp
    then have "x # xs = [] @ x # xs \<and> (\<forall>y \<in> set []. h y = []) \<and> h x = b # bs'"
      using Cons by simp
    then show ?thesis by blast
  qed
qed

lemma upt_split:
  assumes "m < n"
  shows "[0..<n] = [0..<m] @ m # [Suc m..<n]"
proof -
  have "[0..<n] = [0..<m + (n - m)]" using assms by simp
  also have "\<dots> = [0..<m] @ [m..<m + (n - m)]" by (rule upt_add_eq_append) simp
  also have "[m..<m + (n - m)] = m # [Suc m..<n]" using assms by (simp add: upt_conv_Cons)
  finally show ?thesis .
qed

lemma upt_splitD:
  assumes "[0..<n] = ys @ a # zs"
  shows "a < n \<and> ys = [0..<a]"
proof -
  have len: "length ys < n" using arg_cong[OF assms, of length] by simp
  have "a = [0..<n] ! length ys" using assms by simp
  then have a: "a = length ys" using len by simp
  have "ys = take (length ys) [0..<n]" using assms by simp
  then have "ys = [0..<length ys]" using len by (simp add: take_upt)
  with a len show ?thesis by simp
qed

subsection \<open>The header pattern\<close>

lemma clause_header_alt:
  "clause_header tx s d w e =
     (line_start tx s \<and> s < d \<and> d + 1 < w \<and> w < e \<and> e \<le> length tx
      \<and> (\<forall>p. s \<le> p \<and> p < d \<longrightarrow> is_digit (tx ! p))
      \<and> tx ! d = CHR ''.''
      \<and> (\<forall>p. d < p \<and> p < w \<longrightarrow> is_space (tx ! p))
      \<and> is_upper (tx ! w)
      \<and> (\<forall>p. w < p \<and> p < e \<longrightarrow> (is_upper (tx ! p) \<or> is_space (tx ! p)) \<and> tx ! p \<noteq> CHR 0x0A)
      \<and> line_end tx e)"
proof (cases "s < d \<and> d + 1 < w \<and> w < e \<and> e \<le> length tx")
  case True
  then have b: "d \<le> length tx" "w \<le> length tx" "e \<le> length tx" by auto
  have i: "(d + 1 \<le> p) = (d < p)" "(w + 1 \<le> p) = (w < p)" for p by auto
  show ?thesis
    unfolding clause_header_def list_all_slice[OF b(1)] list_all_slice[OF b(2)]
      list_all_slice[OF b(3)] i ..
next
  case False
  then show ?thesis unfolding clause_header_def by auto
qed

lemma clause_pattern_parts:
  "clause_pattern =
     Seq Bol (Seq (Grp 1 (rplus digit)) (Seq (Str ''.'') (Seq (rplus space)
       (Seq (Grp 2 (Seq (Atom upper_cls) (Rep False 0 None heading_cls)))
            (Look (Alt next_header Eol))))))"
  by (simp add: clause_pattern_def upper_cls_def heading_cls_def next_header_def)

lemma seq_greedy_cands:
  "cands f tx (Seq (Rep True lo None a) R) (MState i g) =
     concat (map (\<lambda>n. cands f tx R (MState (i + n) g)) (rev [lo..<Suc (run f tx a None i)]))"
  by (simp add: comp_def rev_map del: upt_Suc)

lemma seq_grp_greedy_cands:
  "cands f tx (Seq (Grp k (Rep True lo None a)) R) (MState i g) =
     concat (map (\<lambda>n. cands f tx R (MState (i + n) ((k, i, i + n) # g)))
                 (rev [lo..<Suc (run f tx a None i)]))"
  by (simp add: comp_def rev_map del: upt_Suc)

lemma dot_cands:
  "cands MULTILINE tx (Seq (Str ''.'') R) (MState d g) =
     (if d < length tx \<and> tx ! d = CHR ''.'' then cands MULTILINE tx R (MState (d + 1) g) else [])"
  by (auto simp: chr_eq_def MULTILINE_def)

lemma dot_end_cands:
  "cands MULTILINE tx (Str ''.'') (MState d g) =
     (if d < length tx \<and> tx ! d = CHR ''.'' then [MState (d + 1) g] else [])"
  by (auto simp: chr_eq_def MULTILINE_def)

lemma next_header_cands:
  "cands MULTILINE tx next_header (MState e g) =
     (if header_start tx e then [MState (e + run MULTILINE tx digit None e + 1) g] else [])"
proof -
  define N where "N = run MULTILINE tx digit None e"
  have none: "cands MULTILINE tx (Str ''.'') (MState (e + n) g) = []" if "n < N" for n
  proof -
    from run_all[OF that[unfolded N_def]] have "is_digit (tx ! (e + n))"
      by (simp add: atom_ok_multiline)
    then have "tx ! (e + n) \<noteq> CHR ''.''" by (rule digit_not_dot)
    then show ?thesis unfolding dot_end_cands by simp
  qed
  have inner: "cands MULTILINE tx (Seq (rplus digit) (Str ''.'')) (MState e g)
          = (if 1 \<le> N then cands MULTILINE tx (Str ''.'') (MState (e + N) g) else [])"
    unfolding rplus_def seq_greedy_cands N_def[symmetric]
    by (rule greedy_last) (rule none)
  have outer: "cands MULTILINE tx next_header (MState e g)
          = (if at_bol MULTILINE tx e
             then cands MULTILINE tx (Seq (rplus digit) (Str ''.'')) (MState e g) else [])"
    unfolding next_header_def by (simp del: cands.simps add: cands.simps(3,9))
  show ?thesis
    unfolding outer inner dot_end_cands header_start_def N_def[symmetric] by simp
qed

lemma ahead_cands:
  "cands MULTILINE tx (Look (Alt next_header Eol)) (MState e g) =
     (if look_ok tx e then [MState e g] else [])"
  by (simp add: next_header_cands look_ok_def del: cands.simps(2))

lemma heading_cands:
  "cands MULTILINE tx
     (Seq (Grp 2 (Seq (Atom upper_cls) (Rep False 0 None heading_cls)))
          (Look (Alt next_header Eol))) (MState w g) =
     (if w < length tx \<and> is_upper (tx ! w)
      then concat (map (\<lambda>m. if look_ok tx (w + 1 + m)
                             then [MState (w + 1 + m) ((2, w, w + 1 + m) # g)] else [])
                       [0..<Suc (run MULTILINE tx heading_cls None (w + 1))])
      else [])"
proof -
  have up: "atom_ok MULTILINE upper_cls c = is_upper c" for c
    unfolding upper_cls_def by (rule atom_ok_multiline(3))
  show ?thesis
  proof (cases "w < length tx \<and> is_upper (tx ! w)")
    case False
    then show ?thesis by (auto simp: up)
  next
    case True
    have step: "cands MULTILINE tx
       (Seq (Grp 2 (Seq (Atom upper_cls) (Rep False 0 None heading_cls)))
          (Look (Alt next_header Eol))) (MState w g)
      = concat (map (\<lambda>m. cands MULTILINE tx (Look (Alt next_header Eol))
                              (MState (w + 1 + m) ((2, w, w + 1 + m) # g)))
               [0..<Suc (run MULTILINE tx heading_cls None (w + 1))])"
      using True by (simp add: up comp_def del: upt_Suc cands.simps(8))
    show ?thesis unfolding step ahead_cands using True by simp
  qed
qed

lemma clause_cands:
  "cands MULTILINE tx clause_pattern (MState s []) =
     (let d = s + run MULTILINE tx digit None s;
          w = d + 1 + run MULTILINE tx space None (d + 1)
      in if at_bol MULTILINE tx s \<and> s < d \<and> d < length tx \<and> tx ! d = CHR ''.''
            \<and> d + 1 < w \<and> w < length tx \<and> is_upper (tx ! w)
         then concat (map (\<lambda>m. if look_ok tx (w + 1 + m)
                                then [MState (w + 1 + m) [(2, w, w + 1 + m), (1, s, d)]] else [])
                          [0..<Suc (run MULTILINE tx heading_cls None (w + 1))])
         else [])"
proof -
  define N where "N = run MULTILINE tx digit None s"
  define d where "d = s + N"
  define W where "W = run MULTILINE tx space None (d + 1)"
  define w where "w = d + 1 + W"
  define R3 where "R3 = Seq (Grp 2 (Seq (Atom upper_cls) (Rep False 0 None heading_cls)))
          (Look (Alt next_header Eol))"
  define R2 where "R2 = Seq (rplus space) R3"
  define R1 where "R1 = Seq (Str ''.'') R2"
  define X where "X = concat (map (\<lambda>m. if look_ok tx (w + 1 + m)
                                then [MState (w + 1 + m) [(2, w, w + 1 + m), (1, s, d)]] else [])
                          [0..<Suc (run MULTILINE tx heading_cls None (w + 1))])"
  have s4: "cands MULTILINE tx R3 (MState w [(1, s, d)]) =
      (if w < length tx \<and> is_upper (tx ! w) then X else [])"
    unfolding R3_def heading_cands X_def by (rule refl)
  have s3: "cands MULTILINE tx R2 (MState (d + 1) g) =
      (if 1 \<le> W then cands MULTILINE tx R3 (MState w g) else [])" for g
  proof -
    have none: "cands MULTILINE tx R3 (MState (d + 1 + n) g) = []" if "n < W" for n
    proof -
      from run_all[OF that[unfolded W_def]] have "is_space (tx ! (d + 1 + n))"
        by (simp add: atom_ok_multiline)
      then have "\<not> is_upper (tx ! (d + 1 + n))" by (rule space_not_upper)
      then show ?thesis unfolding R3_def heading_cands by simp
    qed
    show ?thesis
      unfolding R2_def rplus_def seq_greedy_cands W_def[symmetric] w_def
      by (rule greedy_last) (rule none)
  qed
  have s2: "cands MULTILINE tx R1 (MState d g) =
      (if d < length tx \<and> tx ! d = CHR ''.'' then cands MULTILINE tx R2 (MState (d + 1) g) else [])"
    for g unfolding R1_def by (rule dot_cands)
  have s1: "cands MULTILINE tx (Seq (Grp 1 (rplus digit)) R1) (MState s []) =
      (if 1 \<le> N then cands MULTILINE tx R1 (MState d [(1, s, d)]) else [])"
  proof -
    have none: "cands MULTILINE tx R1 (MState (s + n) ((1, s, s + n) # [])) = []"
      if "n < N" for n
    proof -
      from run_all[OF that[unfolded N_def]] have "is_digit (tx ! (s + n))"
        by (simp add: atom_ok_multiline)
      then have "tx ! (s + n) \<noteq> CHR ''.''" by (rule digit_not_dot)
      then show ?thesis unfolding R1_def dot_cands by simp
    qed
    show ?thesis
      unfolding rplus_def seq_grp_greedy_cands d_def N_def[symmetric]
      by (rule greedy_last) (rule none)
  qed
  have whole: "cands MULTILINE tx clause_pattern (MState s []) =
      (if at_bol MULTILINE tx s then cands MULTILINE tx (Seq (Grp 1 (rplus digit)) R1) (MState s [])
       else [])"
    unfolding clause_pattern_parts R1_def R2_def R3_def by simp
  have e1: "(s < d) = (1 \<le> N)" by (auto simp: d_def)
  have e2: "(d + 1 < w) = (1 \<le> W)" by (auto simp: w_def)
  have "cands MULTILINE tx clause_pattern (MState s []) =
      (if at_bol MULTILINE tx s \<and> s < d \<and> d < length tx \<and> tx ! d = CHR ''.''
            \<and> d + 1 < w \<and> w < length tx \<and> is_upper (tx ! w)
         then X else [])"
    unfolding whole s1 s2 s3 s4 e1 e2 by simp
  then show ?thesis
    unfolding X_def w_def W_def d_def N_def Let_def .
qed

lemma at_bol_line_start: "at_bol MULTILINE tx s = line_start tx s"
  by (simp add: at_bol_def line_start_def MULTILINE_def)

lemma at_eol_multiline: "at_eol MULTILINE tx e = (length tx \<le> e \<or> tx ! e = CHR 0x0A)"
  by (simp add: at_eol_def MULTILINE_def)

lemma heading_ok: "atom_ok MULTILINE heading_cls c = (is_upper c \<or> is_space c)"
  unfolding heading_cls_def by (rule atom_ok_multiline(4))

lemma clause_match_header:
  assumes "cands MULTILINE tx clause_pattern (MState s []) = x # xs"
  shows "\<exists>d w e. x = MState e [(2, w, e), (1, s, d)] \<and> clause_header tx s d w e"
proof -
  define d where "d = s + run MULTILINE tx digit None s"
  define w where "w = d + 1 + run MULTILINE tx space None (d + 1)"
  define M where "M = run MULTILINE tx heading_cls None (w + 1)"
  define h where "h = (\<lambda>m. if look_ok tx (w + 1 + m)
                                then [MState (w + 1 + m) [(2, w, w + 1 + m), (1, s, d)]] else [])"
  have form: "cands MULTILINE tx clause_pattern (MState s []) =
     (if at_bol MULTILINE tx s \<and> s < d \<and> d < length tx \<and> tx ! d = CHR ''.''
            \<and> d + 1 < w \<and> w < length tx \<and> is_upper (tx ! w)
         then concat (map h [0..<Suc M]) else [])"
    unfolding clause_cands Let_def d_def w_def M_def h_def by (rule refl)
  have c: "at_bol MULTILINE tx s" "s < d" "d < length tx" "tx ! d = CHR ''.''" "d + 1 < w"
    "w < length tx" "is_upper (tx ! w)"
    and cc: "concat (map h [0..<Suc M]) = x # xs"
    using assms unfolding form by (auto split: if_splits)
  from concat_hdD[OF cc] obtain ys m zs bs
    where sp: "[0..<Suc M] = ys @ m # zs" "\<forall>y \<in> set ys. h y = []" "h m = x # bs" by blast
  from upt_splitD[OF sp(1)] have m: "m < Suc M" "ys = [0..<m]" by auto
  define e where "e = w + 1 + m"
  have lk: "look_ok tx e" and x: "x = MState e [(2, w, e), (1, s, d)]"
    using sp(3) unfolding h_def e_def by (auto split: if_splits)
  have nolook: "\<not> look_ok tx (w + 1 + q)" if "q < m" for q
  proof -
    have "q \<in> set ys" using that m(2) by simp
    with sp(2) have "h q = []" by blast
    then show ?thesis unfolding h_def by (auto split: if_splits)
  qed
  have inrun: "w + 1 + q < length tx \<and> (is_upper (tx ! (w + 1 + q)) \<or> is_space (tx ! (w + 1 + q)))"
    if "q < m" for q
  proof -
    have "q < run MULTILINE tx heading_cls None (w + 1)" using that m(1) M_def by simp
    from run_all[OF this] show ?thesis by (simp add: heading_ok)
  qed
  have nonl: "tx ! p \<noteq> CHR 0x0A" if "w < p" "p < e" for p
  proof -
    define q where "q = p - (w + 1)"
    have q: "q < m" "p = w + 1 + q" using that e_def q_def by auto
    from nolook[OF q(1)] have "\<not> at_eol MULTILINE tx p" unfolding look_ok_def q(2) by simp
    then show ?thesis by (simp add: at_eol_multiline)
  qed
  have e_le: "e \<le> length tx"
  proof (cases m)
    case 0
    then show ?thesis using c(6) e_def by simp
  next
    case (Suc m')
    then have "m' < m" by simp
    from inrun[OF this] show ?thesis using Suc e_def by simp
  qed
  have digits: "is_digit (tx ! p)" if "s \<le> p" "p < d" for p
  proof -
    have "p - s < run MULTILINE tx digit None s" using that d_def by auto
    from run_all[OF this] show ?thesis using that by (simp add: atom_ok_multiline)
  qed
  have spaces: "is_space (tx ! p)" if "d < p" "p < w" for p
  proof -
    have "p - (d + 1) < run MULTILINE tx space None (d + 1)" using that w_def by auto
    from run_all[OF this] show ?thesis using that by (simp add: atom_ok_multiline)
  qed
  have heading: "(is_upper (tx ! p) \<or> is_space (tx ! p)) \<and> tx ! p \<noteq> CHR 0x0A"
    if "w < p" "p < e" for p
  proof -
    have "p - (w + 1) < m" using that e_def by auto
    from inrun[OF this] that nonl[OF that] show ?thesis by simp
  qed
  have not_bol: "\<not> at_bol MULTILINE tx e"
  proof
    assume "at_bol MULTILINE tx e"
    then have nl: "tx ! (e - 1) = CHR 0x0A" using e_def by (simp add: at_bol_def)
    show False
    proof (cases m)
      case 0
      then have "e - 1 = w" using e_def by simp
      with nl c(7) upper_not_newline show False by metis
    next
      case (Suc m')
      then have "w < e - 1" "e - 1 < e" using e_def by auto
      from nonl[OF this] nl show False by simp
    qed
  qed
  have "at_eol MULTILINE tx e" using lk not_bol unfolding look_ok_def header_start_def by blast
  then have le: "line_end tx e" using e_le by (auto simp: at_eol_multiline line_end_def)
  have "clause_header tx s d w e"
    unfolding clause_header_alt
    using c at_bol_line_start[of tx s] e_le digits spaces heading le e_def by auto
  with x show ?thesis by blast
qed

lemma clause_header_match:
  assumes "clause_header tx s d w e"
  shows "\<exists>xs. cands MULTILINE tx clause_pattern (MState s []) = MState e [(2, w, e), (1, s, d)] # xs"
proof -
  have h: "line_start tx s" "s < d" "d + 1 < w" "w < e" "e \<le> length tx"
    "\<And>p. s \<le> p \<Longrightarrow> p < d \<Longrightarrow> is_digit (tx ! p)"
    "tx ! d = CHR ''.''"
    "\<And>p. d < p \<Longrightarrow> p < w \<Longrightarrow> is_space (tx ! p)"
    "is_upper (tx ! w)"
    "\<And>p. w < p \<Longrightarrow> p < e \<Longrightarrow> (is_upper (tx ! p) \<or> is_space (tx ! p)) \<and> tx ! p \<noteq> CHR 0x0A"
    "line_end tx e"
    using assms unfolding clause_header_alt by auto
  have rd: "run MULTILINE tx digit None s = d - s"
  proof (rule run_eq)
    fix p assume "p < d - s"
    then show "s + p < length tx \<and> atom_ok MULTILINE digit (tx ! (s + p))"
      using h(2,3,4,5) h(6)[of "s + p"] by (simp add: atom_ok_multiline)
  next
    have "\<not> is_digit (tx ! d)" using h(7) dot_not_digit by simp
    then show "length tx \<le> s + (d - s) \<or> \<not> atom_ok MULTILINE digit (tx ! (s + (d - s)))"
      using h(2) by (simp add: atom_ok_multiline)
  qed
  then have d: "s + run MULTILINE tx digit None s = d" using h(2) by simp
  have rs: "run MULTILINE tx space None (d + 1) = w - (d + 1)"
  proof (rule run_eq)
    fix p assume "p < w - (d + 1)"
    then show "d + 1 + p < length tx \<and> atom_ok MULTILINE space (tx ! (d + 1 + p))"
      using h(3,4,5) h(8)[of "d + 1 + p"] by (simp add: atom_ok_multiline)
  next
    have "\<not> is_space (tx ! w)" using h(9) space_not_upper by blast
    then show "length tx \<le> d + 1 + (w - (d + 1))
        \<or> \<not> atom_ok MULTILINE space (tx ! (d + 1 + (w - (d + 1))))"
      using h(3) by (simp add: atom_ok_multiline)
  qed
  then have w: "d + 1 + run MULTILINE tx space None (d + 1) = w" using h(3) by simp
  define M where "M = run MULTILINE tx heading_cls None (w + 1)"
  define m where "m = e - (w + 1)"
  have e: "e = w + 1 + m" using h(4) m_def by simp
  have "m \<le> M"
    unfolding M_def
  proof (rule run_ge)
    fix p assume "p < m"
    then have "w < w + 1 + p" "w + 1 + p < e" using e by auto
    from h(10)[OF this] \<open>w + 1 + p < e\<close> h(5)
    show "w + 1 + p < length tx \<and> atom_ok MULTILINE heading_cls (tx ! (w + 1 + p))"
      by (simp add: heading_ok)
  qed
  then have mlt: "m < Suc M" by simp
  define hh where "hh = (\<lambda>m. if look_ok tx (w + 1 + m)
                                then [MState (w + 1 + m) [(2, w, w + 1 + m), (1, s, d)]] else [])"
  have form: "cands MULTILINE tx clause_pattern (MState s []) = concat (map hh [0..<Suc M])"
    unfolding clause_cands Let_def d w M_def hh_def
    using h(1,2,3,4,5,7,9) at_bol_line_start[of tx s] by simp
  have lk: "look_ok tx e"
    using h(11) unfolding look_ok_def line_end_def at_eol_multiline by auto
  have nolook: "hh q = []" if "q < m" for q
  proof -
    have p: "w < w + 1 + q" "w + 1 + q < e" using that e by auto
    have nl: "tx ! (w + 1 + q) \<noteq> CHR 0x0A" using h(10)[OF p] by simp
    have "\<not> at_eol MULTILINE tx (w + 1 + q)"
      using nl p(2) h(5) by (simp add: at_eol_multiline)
    moreover have "\<not> at_bol MULTILINE tx (w + 1 + q)"
    proof (cases q)
      case 0
      then show ?thesis using h(9) upper_not_newline by (auto simp: at_bol_def)
    next
      case (Suc q')
      then have "w < w + 1 + q'" "w + 1 + q' < e" using p by auto
      from h(10)[OF this] show ?thesis using Suc by (simp add: at_bol_def)
    qed
    ultimately have "\<not> look_ok tx (w + 1 + q)" unfolding look_ok_def header_start_def by blast
    then show ?thesis unfolding hh_def by simp
  qed
  have "\<exists>cs. concat (map hh [0..<Suc M]) = MState e [(2, w, e), (1, s, d)] # cs"
  proof (rule concat_first)
    show "[0..<Suc M] = [0..<m] @ m # [Suc m..<Suc M]" using mlt by (rule upt_split)
    show "hh y = []" if "y \<in> set [0..<m]" for y using nolook that by simp
    show "hh m = MState e [(2, w, e), (1, s, d)] # []" using lk unfolding hh_def e by simp
  qed
  then show ?thesis unfolding form .
qed

lemma header_no_straddle:
  assumes "clause_header tx s' d' w' e'" "clause_header tx s d w e" "s' < s"
  shows "e' \<le> s"
proof (rule ccontr)
  assume "\<not> e' \<le> s"
  then have lt: "s < e'" by simp
  have a: "line_start tx s" "s < d" "is_digit (tx ! s)"
    using assms(2) unfolding clause_header_alt by auto
  have b: "\<And>p. s' \<le> p \<Longrightarrow> p < d' \<Longrightarrow> is_digit (tx ! p)" "tx ! d' = CHR ''.''"
    "\<And>p. d' < p \<Longrightarrow> p < w' \<Longrightarrow> is_space (tx ! p)" "is_upper (tx ! w')"
    "\<And>p. w' < p \<Longrightarrow> p < e' \<Longrightarrow> is_upper (tx ! p) \<or> is_space (tx ! p)"
    using assms(1) unfolding clause_header_alt by auto
  have nl: "tx ! (s - 1) = CHR 0x0A" using a(1) assms(3) by (simp add: line_start_def)
  consider "s < d'" | "s = d'" | "d' < s" "s < w'" | "s = w'" | "w' < s" by linarith
  then show False
  proof cases
    case 1
    then have "is_digit (tx ! (s - 1))" using b(1)[of "s - 1"] assms(3) by simp
    with nl newline_not_digit show False by simp
  next
    case 2
    with a(3) b(2) dot_not_digit show False by simp
  next
    case 3
    from b(3)[OF 3] a(3) space_not_digit show False by blast
  next
    case 4
    with a(3) b(4) upper_not_digit show False by blast
  next
    case 5
    from b(5)[OF 5 lt] a(3) space_not_digit upper_not_digit show False by blast
  qed
qed

subsection \<open>The clauses\<close>

lemma clause_matches_sound:
  assumes "m \<in> set (re_finditer MULTILINE clause_pattern tx)"
  shows "\<exists>d w. mcaps m = [(2, w, mend m), (1, mstart m, d)]
               \<and> clause_header tx (mstart m) d w (mend m)"
proof -
  from find_from_sound[OF assms[unfolded re_finditer_def]]
  obtain xs where c: "cands MULTILINE tx clause_pattern (MState (mstart m) [])
              = MState (mend m) (mcaps m) # xs" by blast
  from clause_match_header[OF c] show ?thesis by auto
qed

lemma clause_matches_complete:
  assumes h: "clause_header tx s d w e"
  shows "Match s e [(2, w, e), (1, s, d)] \<in> set (re_finditer MULTILINE clause_pattern tx)"
proof -
  from clause_header_match[OF h] obtain xs where
    c: "cands MULTILINE tx clause_pattern (MState s []) = MState e [(2, w, e), (1, s, d)] # xs"
    by blast
  have sl: "s \<le> length tx" using h unfolding clause_header_alt by simp
  have "Match s (pos (MState e [(2, w, e), (1, s, d)])) (caps (MState e [(2, w, e), (1, s, d)]))
          \<in> set (find_from MULTILINE clause_pattern tx 0)"
  proof (rule find_from_complete[OF _ sl c])
    show "0 \<le> s" by simp
    fix j y ys
    assume j: "j < s" and cj: "cands MULTILINE tx clause_pattern (MState j []) = y # ys"
    from clause_match_header[OF cj] obtain d' w' e' where
      y: "y = MState e' [(2, w', e'), (1, j, d')]" and h': "clause_header tx j d' w' e'" by blast
    from header_no_straddle[OF h' h j] show "pos y \<le> s" unfolding y by simp
  qed
  then show ?thesis unfolding re_finditer_def by simp
qed

lemma clause_at_fields:
  "number (clause_at tx ms i) = match_group tx (ms ! i) 1"
  "heading (clause_at tx ms i) = strip (match_group tx (ms ! i) 2)"
  "full_content (clause_at tx ms i) =
     strip (slice tx (mend (ms ! i)) (if i + 1 < length ms then mstart (ms ! (i + 1)) else length tx))"
  "content (clause_at tx ms i) = take 500 (full_content (clause_at tx ms i))"
  by (simp_all add: clause_at_def Let_def)

lemma extract_clauses_nth:
  "i < length (re_finditer MULTILINE clause_pattern tx) \<Longrightarrow>
     extract_clauses tx ! i = clause_at tx (re_finditer MULTILINE clause_pattern tx) i"
  by (simp add: extract_clauses_def Let_def)

text \<open>
  Claim C3, as the code has it. The headers that \<open>extract_clauses\<close> finds are exactly the
  clause headers of the text: a line start, an integer, a period, white space and a
  heading in upper case (an upper-case letter, then upper-case letters and white space)
  that runs to the end of its line; a heading that is only capitalized is not one. There
  is one clause for each header, in the order of the text, and no header starts before
  the end of the one before. The number of a clause is the integer of its header, its
  heading the heading without the white space at its ends, and its full content the text
  between the end of its header and the start of the next header (the end of the text
  for the last clause) without the white space at its ends; the content is the first 500
  characters of the full content.
\<close>

theorem extract_clauses_headers:
  "(let ms = re_finditer MULTILINE clause_pattern text; cs = extract_clauses text in
     length cs = length ms
     \<and> (\<forall>s e. (\<exists>m. m \<in> set ms \<and> mstart m = s \<and> mend m = e) = (\<exists>d w. clause_header text s d w e))
     \<and> in_order ms
     \<and> list_all (\<lambda>i.
          (\<exists>d w. clause_header text (mstart (ms ! i)) d w (mend (ms ! i))
                 \<and> number (cs ! i) = slice text (mstart (ms ! i)) d
                 \<and> heading (cs ! i) = strip (slice text w (mend (ms ! i))))
          \<and> full_content (cs ! i) =
              strip (slice text (mend (ms ! i))
                       (if i + 1 < length ms then mstart (ms ! (i + 1)) else length text))
          \<and> content (cs ! i) = take 500 (full_content (cs ! i)))
        [0..<length ms])"
proof -
  define ms where "ms = re_finditer MULTILINE clause_pattern text"
  define cs where "cs = extract_clauses text"
  have p1: "length cs = length ms" unfolding cs_def ms_def by (rule extract_clauses_length)
  have p2: "(\<exists>m. m \<in> set ms \<and> mstart m = s \<and> mend m = e) = (\<exists>d w. clause_header text s d w e)"
    for s e
  proof
    assume "\<exists>m. m \<in> set ms \<and> mstart m = s \<and> mend m = e"
    then obtain m where m: "m \<in> set ms" "mstart m = s" "mend m = e" by blast
    from clause_matches_sound[OF m(1)[unfolded ms_def]] m(2,3)
    show "\<exists>d w. clause_header text s d w e" by auto
  next
    assume "\<exists>d w. clause_header text s d w e"
    then obtain d w where "clause_header text s d w e" by blast
    from clause_matches_complete[OF this]
    have "Match s e [(2, w, e), (1, s, d)] \<in> set ms" unfolding ms_def .
    then show "\<exists>m. m \<in> set ms \<and> mstart m = s \<and> mend m = e"
      by (intro exI[of _ "Match s e [(2, w, e), (1, s, d)]"]) simp
  qed
  have p3: "in_order ms" unfolding ms_def re_finditer_def by (rule find_from_in_order)
  have p4: "(\<exists>d w. clause_header text (mstart (ms ! i)) d w (mend (ms ! i))
                 \<and> number (cs ! i) = slice text (mstart (ms ! i)) d
                 \<and> heading (cs ! i) = strip (slice text w (mend (ms ! i))))
          \<and> full_content (cs ! i) =
              strip (slice text (mend (ms ! i))
                       (if i + 1 < length ms then mstart (ms ! (i + 1)) else length text))
          \<and> content (cs ! i) = take 500 (full_content (cs ! i))"
    if i: "i < length ms" for i
  proof -
    have ci: "cs ! i = clause_at text ms i"
      unfolding cs_def ms_def using i[unfolded ms_def] by (rule extract_clauses_nth)
    have "ms ! i \<in> set ms" using i by simp
    from clause_matches_sound[OF this[unfolded ms_def]] obtain d w where
      c: "mcaps (ms ! i) = [(2, w, mend (ms ! i)), (1, mstart (ms ! i), d)]"
      and h: "clause_header text (mstart (ms ! i)) d w (mend (ms ! i))"
      unfolding ms_def[symmetric] by blast
    have n: "number (cs ! i) = slice text (mstart (ms ! i)) d"
      unfolding ci clause_at_fields by (simp add: match_group_def c)
    have hd: "heading (cs ! i) = strip (slice text w (mend (ms ! i)))"
      unfolding ci clause_at_fields by (simp add: match_group_def c)
    from h n hd show ?thesis unfolding ci clause_at_fields by blast
  qed
  have "list_all (\<lambda>i.
          (\<exists>d w. clause_header text (mstart (ms ! i)) d w (mend (ms ! i))
                 \<and> number (cs ! i) = slice text (mstart (ms ! i)) d
                 \<and> heading (cs ! i) = strip (slice text w (mend (ms ! i))))
          \<and> full_content (cs ! i) =
              strip (slice text (mend (ms ! i))
                       (if i + 1 < length ms then mstart (ms ! (i + 1)) else length text))
          \<and> content (cs ! i) = take 500 (full_content (cs ! i)))
        [0..<length ms]"
    unfolding list_all_iff using p4 by simp
  with p1 p2 p3 show ?thesis unfolding Let_def ms_def[symmetric] cs_def[symmetric] by blast
qed

text \<open>The second header of the scenario text, found as the theorem says.\<close>

theorem extract_clauses_headers_witness:
  "clause_header scenario_text 69 70 72 87
   \<and> (\<exists>m. m \<in> set (re_finditer MULTILINE clause_pattern scenario_text)
           \<and> mstart m = 69 \<and> mend m = 87)"
proof -
  have h: "clause_header scenario_text 69 70 72 87"
    by (simp add: clause_header_def line_start_def line_end_def scenario_eval slice_def chr_eval
             del: One_nat_def)
       (simp add: scenario_text_def chr_eval)
  then have "\<exists>d w. clause_header scenario_text 69 d w 87" by blast
  with extract_clauses_headers[of scenario_text] h show ?thesis unfolding Let_def by blast
qed

text \<open>
  Claim C3 as written does not hold of the code. The line \<^verbatim>\<open>1. Termination\<close> has an
  integer, a period, white space and a capitalized heading, and no clause is found in it;
  and the full content of the first clause of the scenario text is not the text between
  its header (which ends at offset 14) and the next header (which starts at offset 69):
  the newlines at both ends are removed.
\<close>

theorem extract_clauses_not_between:
  "extract_clauses ''1. Termination'' = []
   \<and> re_finditer MULTILINE clause_pattern scenario_text
       = [Match 0 14 [(2, 3, 14), (1, 0, 1)], Match 69 87 [(2, 72, 87), (1, 69, 70)]]
   \<and> slice scenario_text 14 69
       = ''\<newline>This agreement may be terminated with 30 days notice.\<newline>''
   \<and> full_content (extract_clauses scenario_text ! 0)
       = ''This agreement may be terminated with 30 days notice.''
   \<and> full_content (extract_clauses scenario_text ! 0) \<noteq> slice scenario_text 14 69"
proof -
  have a: "extract_clauses ''1. Termination'' = []"
    by (simp add: extract_clauses_def Let_def re_eval clause_pattern_def del: One_nat_def)
  have s: "slice scenario_text 14 69
       = ''\<newline>This agreement may be terminated with 30 days notice.\<newline>''"
    by (simp add: slice_def scenario_text_def)
  have "extract_clauses scenario_text ! 0
          = clause_at scenario_text (re_finditer MULTILINE clause_pattern scenario_text) 0"
    by (rule extract_clauses_nth) (simp add: scenario_clause_matches)
  then have f: "full_content (extract_clauses scenario_text ! 0)
       = ''This agreement may be terminated with 30 days notice.''"
    by (simp add: clause_at_fields scenario_clause_matches s strip_def chr_eval)
  from a scenario_clause_matches s f show ?thesis by simp
qed

section \<open>Properties of the definition extractor\<close>

lemma occurs_at_lit:
  assumes ic: "ignorecase f" and kl: "k \<le> length tx"
  shows "occurs_at tx kw k \<longleftrightarrow> lit f tx kw k = Some (k + length kw)"
proof
  assume o: "occurs_at tx kw k"
  then have le: "k + length kw \<le> length tx"
    and eq: "lower (slice tx k (k + length kw)) = lower kw" by (auto simp: occurs_at_def)
  show "lit f tx kw k = Some (k + length kw)"
  proof (rule lit_SomeI[OF le])
    fix p assume p: "p < length kw"
    have "lower (slice tx k (k + length kw)) ! p = lower kw ! p" using eq by simp
    then have "lower_chr (tx ! (k + p)) = lower_chr (kw ! p)"
      using p le by (simp add: lower_def slice_def)
    then show "chr_eq f (kw ! p) (tx ! (k + p))"
      using ic by (simp add: chr_eq_def)
  qed
next
  assume l: "lit f tx kw k = Some (k + length kw)"
  from lit_SomeD[OF l kl] have le: "k + length kw \<le> length tx"
    and ch: "\<And>p. p < length kw \<Longrightarrow> chr_eq f (kw ! p) (tx ! (k + p))" by auto
  have "lower (slice tx k (k + length kw)) = lower kw"
  proof (rule nth_equalityI)
    show "length (lower (slice tx k (k + length kw))) = length (lower kw)"
      using le by (simp add: lower_def slice_def)
    fix p assume "p < length (lower (slice tx k (k + length kw)))"
    then have p: "p < length kw" using le by (simp add: lower_def slice_def)
    from ch[OF p] have "lower_chr (kw ! p) = lower_chr (tx ! (k + p))"
      using ic by (simp add: chr_eq_def)
    then show "lower (slice tx k (k + length kw)) ! p = lower kw ! p"
      using p le by (simp add: lower_def slice_def)
  qed
  with le show "occurs_at tx kw k" by (simp add: occurs_at_def)
qed

lemma lower_chr_punct:
  "lower_chr c = CHR 0x22 \<longleftrightarrow> c = CHR 0x22"
  "upper_chr c = CHR 0x22 \<longleftrightarrow> c = CHR 0x22"
  by (cases c; simp add: lower_chr_Char upper_chr_Char; blast)+

lemma chr_eq_punct:
  "chr_eq IGNORECASE (CHR 0x22) c = (c = CHR 0x22)"
  "chr_eq IGNORECASE (CHR ''.'') c = (c = CHR ''.'')"
  by (cases c; simp add: chr_eq_def IGNORECASE_def lower_chr_Char; blast)+

lemma case_space:
  "is_space (lower_chr c) = is_space c" "is_space (upper_chr c) = is_space c"
  by (cases c; simp add: lower_chr_Char upper_chr_Char is_space_Char; blast)+

lemma atom_ok_ignorecase:
  "atom_ok IGNORECASE not_quote c = (c \<noteq> CHR 0x22)"
  "atom_ok IGNORECASE not_period c = (c \<noteq> CHR ''.'')"
  "atom_ok IGNORECASE space c = is_space c"
  by (simp_all add: IGNORECASE_def not_quote_def not_period_def space_def in_items_def
                 lower_chr_punct lower_chr_terminator case_space)

lemma lit_char:
  "lit IGNORECASE tx [CHR 0x22] i = Some j \<longleftrightarrow> i < length tx \<and> tx ! i = CHR 0x22 \<and> j = i + 1"
  "lit IGNORECASE tx ''.'' i = Some j \<longleftrightarrow> i < length tx \<and> tx ! i = CHR ''.'' \<and> j = i + 1"
  by (auto simp: chr_eq_punct)

lemma cands_Str_iff:
  "x \<in> set (cands f tx (Str s) st) \<longleftrightarrow> lit f tx s (pos st) = Some (pos x) \<and> caps x = caps st"
  by (cases "lit f tx s (pos st)"; cases x) auto

lemma cands_Grp_iff:
  "x \<in> set (cands f tx (Grp n r) st) \<longleftrightarrow>
     (\<exists>y. y \<in> set (cands f tx r st) \<and> x = MState (pos y) ((n, pos st, pos y) # caps y))"
  by auto

lemma cands_Alt_iff:
  "x \<in> set (cands f tx (Alt r1 r2) st) \<longleftrightarrow>
     x \<in> set (cands f tx r1 st) \<or> x \<in> set (cands f tx r2 st)"
  by simp

lemma definition_pattern_parts:
  "definition_pattern =
     Seq (Str [CHR 0x22]) (Seq (Grp 1 (Rep True 1 None not_quote)) (Seq (Str [CHR 0x22])
       (Seq (Rep True 0 None space)
         (Seq (Alt (Str ''means'') (Alt (Str ''is'') (Alt (Str ''shall'') (Str ''refers to''))))
           (Seq (Rep True 0 None space)
             (Grp 2 (Seq (Rep True 1 None not_period) (Str ''.''))))))))"
  by (simp add: definition_pattern_def not_quote_def not_period_def rplus_def rstar_def)

lemma trigger_cands:
  "x \<in> set (cands IGNORECASE tx
       (Alt (Str ''means'') (Alt (Str ''is'') (Alt (Str ''shall'') (Str ''refers to'')))) st) \<longleftrightarrow>
     (\<exists>w. w \<in> set triggers \<and> lit IGNORECASE tx w (pos st) = Some (pos x)) \<and> caps x = caps st"
  unfolding cands_Alt_iff cands_Str_iff triggers_def
  by (simp only: list.set insert_iff empty_iff) blast

lemma space_not_period: "is_space c \<Longrightarrow> c \<noteq> CHR ''.''"
  by (auto simp: is_space_def)

lemma ignorecase_IGNORECASE: "ignorecase IGNORECASE"
  by (simp add: IGNORECASE_def)

lemma definition_cands_sound:
  assumes x: "x \<in> set (cands IGNORECASE tx definition_pattern (MState s []))"
  shows "\<exists>c u t q. definition_match tx s c u t (pos x)
            \<and> caps x = [(2, q, pos x), (1, s + 1, c)]
            \<and> t \<le> q \<and> q < pos x \<and> list_all is_space (slice tx t q)"
proof -
  let ?f = IGNORECASE
  let ?T = "Alt (Str ''means'') (Alt (Str ''is'') (Alt (Str ''shall'') (Str ''refers to'')))"
  from x obtain y1 y2 y3 y4 y5 y6 where
    y1: "y1 \<in> set (cands ?f tx (Str [CHR 0x22]) (MState s []))" and
    y2: "y2 \<in> set (cands ?f tx (Grp 1 (Rep True 1 None not_quote)) y1)" and
    y3: "y3 \<in> set (cands ?f tx (Str [CHR 0x22]) y2)" and
    y4: "y4 \<in> set (cands ?f tx (Rep True 0 None space) y3)" and
    y5: "y5 \<in> set (cands ?f tx ?T y4)" and
    y6: "y6 \<in> set (cands ?f tx (Rep True 0 None space) y5)" and
    x7: "x \<in> set (cands ?f tx (Grp 2 (Seq (Rep True 1 None not_period) (Str ''.''))) y6)"
    unfolding definition_pattern_parts cands_Seq_iff by blast
  from y1 have s: "s < length tx" "tx ! s = CHR 0x22" "pos y1 = s + 1" "caps y1 = []"
    unfolding cands_Str_iff by (auto simp: lit_char simp del: lit.simps)
  from y2 obtain n1 where n1: "1 \<le> n1" "n1 \<le> run ?f tx not_quote None (s + 1)"
    "y2 = MState (s + 1 + n1) [(1, s + 1, s + 1 + n1)]"
    unfolding cands_Grp_iff cands_Rep_iff s(3,4) by auto
  define c where "c = s + 1 + n1"
  have nq: "tx ! p \<noteq> CHR 0x22" if "s + 1 \<le> p" "p < c" for p
  proof -
    have "p - (s + 1) < run ?f tx not_quote None (s + 1)" using that n1(2) c_def by auto
    from run_all[OF this] that show ?thesis unfolding atom_ok_ignorecase by simp
  qed
  from y3 have c: "c < length tx" "tx ! c = CHR 0x22" "pos y3 = c + 1"
    "caps y3 = [(1, s + 1, c)]"
    unfolding cands_Str_iff n1(3) c_def[symmetric] by (auto simp: lit_char simp del: lit.simps)
  from y4 obtain n2 where n2: "n2 \<le> run ?f tx space None (c + 1)" "pos y4 = c + 1 + n2"
    "caps y4 = [(1, s + 1, c)]"
    unfolding cands_Rep_iff c(3,4) by auto
  define u where "u = c + 1 + n2"
  have sp1: "is_space (tx ! p)" if "c + 1 \<le> p" "p < u" for p
  proof -
    have "p - (c + 1) < run ?f tx space None (c + 1)" using that n2(1) u_def by auto
    from run_all[OF this] that show ?thesis unfolding atom_ok_ignorecase by simp
  qed
  have u_len: "u \<le> length tx"
    using n2(1) run_le[of "c + 1" ?f tx space None] c(1) u_def by simp
  from y5 obtain w where w: "w \<in> set triggers" "lit ?f tx w u = Some (pos y5)"
    "caps y5 = [(1, s + 1, c)]"
    unfolding trigger_cands n2(2,3) u_def[symmetric] by blast
  define t where "t = pos y5"
  from lit_pos[OF w(2)] have t_eq: "t = u + length w" unfolding t_def .
  have occ: "occurs_at tx w u"
    using w(2) unfolding occurs_at_lit[OF ignorecase_IGNORECASE u_len] t_def[symmetric] t_eq .
  then have t_len: "t \<le> length tx" unfolding t_eq occurs_at_def by simp
  from y6 obtain n3 where n3: "n3 \<le> run ?f tx space None t" "pos y6 = t + n3"
    "caps y6 = [(1, s + 1, c)]"
    unfolding cands_Rep_iff t_def[symmetric] w(3) by auto
  define q where "q = t + n3"
  have sp2: "is_space (tx ! p)" if "t \<le> p" "p < q" for p
  proof -
    have "p - t < run ?f tx space None t" using that n3(1) q_def by auto
    from run_all[OF this] that show ?thesis unfolding atom_ok_ignorecase by simp
  qed
  have q_len: "q \<le> length tx"
    using n3(1) run_le[of t ?f tx space None] t_len q_def by simp
  from x7 obtain z z1 where z1: "z1 \<in> set (cands ?f tx (Rep True 1 None not_period) y6)"
    and z: "z \<in> set (cands ?f tx (Str ''.'') z1)"
    and xz: "x = MState (pos z) ((2, pos y6, pos z) # caps z)"
    unfolding cands_Grp_iff cands_Seq_iff by blast
  from z1 obtain n4 where n4: "1 \<le> n4" "n4 \<le> run ?f tx not_period None q"
    "pos z1 = q + n4" "caps z1 = [(1, s + 1, c)]"
    unfolding cands_Rep_iff n3(2,3) q_def[symmetric] by auto
  define p where "p = q + n4"
  have np: "tx ! j \<noteq> CHR ''.''" if "q \<le> j" "j < p" for j
  proof -
    have "j - q < run ?f tx not_period None q" using that n4(2) p_def by auto
    from run_all[OF this] that show ?thesis unfolding atom_ok_ignorecase by simp
  qed
  from z have p: "p < length tx" "tx ! p = CHR ''.''" "pos z = p + 1" "caps z = [(1, s + 1, c)]"
    unfolding cands_Str_iff n4(3,4) p_def[symmetric] by (auto simp: lit_char simp del: lit.simps)
  have xe: "pos x = p + 1" "caps x = [(2, q, p + 1), (1, s + 1, c)]"
    unfolding xz n3(2) q_def[symmetric] p by simp_all
  have np2: "tx ! j \<noteq> CHR ''.''" if "t \<le> j" "j < p" for j
  proof (cases "j < q")
    case True
    from sp2[OF that(1) True] show ?thesis by (rule space_not_period)
  next
    case False
    then show ?thesis using np that by simp
  qed
  have l1: "list_all (\<lambda>x. x \<noteq> CHR 0x22) (slice tx (s + 1) c)"
    using list_all_slice[of c tx "\<lambda>x. x \<noteq> CHR 0x22" "s + 1"] c(1) nq by simp
  have l2: "list_all is_space (slice tx (c + 1) u)"
    using list_all_slice[OF u_len, of is_space "c + 1"] sp1 by simp
  have l3: "list_all (\<lambda>x. x \<noteq> CHR ''.'') (slice tx t p)"
    using list_all_slice[of p tx "\<lambda>x. x \<noteq> CHR ''.''" t] p(1) np2 by simp
  have l4: "list_all is_space (slice tx t q)"
    using list_all_slice[OF q_len, of is_space t] sp2 by simp
  have l5: "list_ex (\<lambda>w. occurs_at tx w u \<and> t = u + length w) triggers"
    unfolding list_ex_iff using w(1) occ t_eq by blast
  have "definition_match tx s c u t (p + 1)"
    unfolding definition_match_def
    using s c l1 l2 l3 l5 p n1(1) n4(1) c_def u_def q_def p_def by simp
  moreover have "t \<le> q" "q < p + 1" using q_def p_def by simp_all
  ultimately show ?thesis using xe l4 by auto
qed

lemma definition_cands_complete:
  assumes m: "definition_match tx s c u t e"
  shows "cands IGNORECASE tx definition_pattern (MState s []) \<noteq> []"
proof -
  let ?f = IGNORECASE
  let ?T = "Alt (Str ''means'') (Alt (Str ''is'') (Alt (Str ''shall'') (Str ''refers to'')))"
  from m obtain w where w: "w \<in> set triggers" "occurs_at tx w u" "t = u + length w"
    unfolding definition_match_def list_ex_iff by blast
  from m have b: "s + 1 < c" "c < u" "t + 1 < e" "e \<le> length tx" "tx ! s = CHR 0x22"
    "tx ! c = CHR 0x22" "tx ! (e - 1) = CHR ''.''"
    and l1: "list_all (\<lambda>x. x \<noteq> CHR 0x22) (slice tx (s + 1) c)"
    and l2: "list_all is_space (slice tx (c + 1) u)"
    and l3: "list_all (\<lambda>x. x \<noteq> CHR ''.'') (slice tx t (e - 1))"
    unfolding definition_match_def by auto
  have t_len: "t \<le> length tx" using w(2,3) by (simp add: occurs_at_def)
  have u_len: "u \<le> length tx" using t_len w(3) by simp
  have c_len: "c \<le> length tx" using u_len b(2) by simp
  have e1_len: "e - 1 \<le> length tx" using b(4) by simp
  have y1: "MState (s + 1) [] \<in> set (cands ?f tx (Str [CHR 0x22]) (MState s []))"
    unfolding cands_Str_iff using b c_len by (simp add: lit_char del: lit.simps)
  have "c - (s + 1) \<le> run ?f tx not_quote None (s + 1)"
  proof (rule run_ge)
    fix p assume "p < c - (s + 1)"
    then have "s + 1 + p < c" by simp
    then show "s + 1 + p < length tx \<and> atom_ok ?f not_quote (tx ! (s + 1 + p))"
      using l1[unfolded list_all_slice[OF c_len]] c_len unfolding atom_ok_ignorecase by simp
  qed
  then have y2: "MState c [(1, s + 1, c)]
      \<in> set (cands ?f tx (Grp 1 (Rep True 1 None not_quote)) (MState (s + 1) []))"
  proof -
    assume r: "c - (s + 1) \<le> run ?f tx not_quote None (s + 1)"
    have "MState c [] \<in> set (cands ?f tx (Rep True 1 None not_quote) (MState (s + 1) []))"
      unfolding cands_Rep_iff
    proof (intro exI[of _ "c - (s + 1)"] conjI)
      show "1 \<le> c - (s + 1)" using b(1) by simp
      show "c - (s + 1) \<le> run ?f tx not_quote None (pos (MState (s + 1) []))" using r by simp
      show "MState c [] = MState (pos (MState (s + 1) []) + (c - (s + 1))) (caps (MState (s + 1) []))"
        using b(1) by simp
    qed
    moreover have "MState c [(1, s + 1, c)]
        = MState (pos (MState c [])) ((1, pos (MState (s + 1) []), pos (MState c [])) # caps (MState c []))"
      by simp
    ultimately show ?thesis unfolding cands_Grp_iff by blast
  qed
  have y3: "MState (c + 1) [(1, s + 1, c)]
      \<in> set (cands ?f tx (Str [CHR 0x22]) (MState c [(1, s + 1, c)]))"
    unfolding cands_Str_iff using b u_len by (simp add: lit_char del: lit.simps)
  have "u - (c + 1) \<le> run ?f tx space None (c + 1)"
  proof (rule run_ge)
    fix p assume "p < u - (c + 1)"
    then have "c + 1 + p < u" by simp
    then show "c + 1 + p < length tx \<and> atom_ok ?f space (tx ! (c + 1 + p))"
      using l2[unfolded list_all_slice[OF u_len]] u_len unfolding atom_ok_ignorecase by simp
  qed
  then have y4: "MState u [(1, s + 1, c)]
      \<in> set (cands ?f tx (Rep True 0 None space) (MState (c + 1) [(1, s + 1, c)]))"
    unfolding cands_Rep_iff using b(2) by (intro exI[of _ "u - (c + 1)"]) simp
  have "lit ?f tx w u = Some t"
    using w(2) unfolding occurs_at_lit[OF ignorecase_IGNORECASE u_len] w(3) .
  then have y5: "MState t [(1, s + 1, c)] \<in> set (cands ?f tx ?T (MState u [(1, s + 1, c)]))"
    unfolding trigger_cands using w(1) by (simp del: lit.simps) blast
  have y6: "MState t [(1, s + 1, c)]
      \<in> set (cands ?f tx (Rep True 0 None space) (MState t [(1, s + 1, c)]))"
    unfolding cands_Rep_iff by simp
  have "e - 1 - t \<le> run ?f tx not_period None t"
  proof (rule run_ge)
    fix p assume "p < e - 1 - t"
    then have "t + p < e - 1" by simp
    then show "t + p < length tx \<and> atom_ok ?f not_period (tx ! (t + p))"
      using l3[unfolded list_all_slice[OF e1_len]] b(4) unfolding atom_ok_ignorecase by simp
  qed
  then have z1: "MState (e - 1) [(1, s + 1, c)]
      \<in> set (cands ?f tx (Rep True 1 None not_period) (MState t [(1, s + 1, c)]))"
    unfolding cands_Rep_iff using b(3) by (intro exI[of _ "e - 1 - t"]) simp
  have z: "MState e [(1, s + 1, c)]
      \<in> set (cands ?f tx (Str ''.'') (MState (e - 1) [(1, s + 1, c)]))"
    unfolding cands_Str_iff using b by (simp add: lit_char del: lit.simps)
  have x7: "MState e [(2, t, e), (1, s + 1, c)]
      \<in> set (cands ?f tx (Grp 2 (Seq (Rep True 1 None not_period) (Str ''.'')))
               (MState t [(1, s + 1, c)]))"
  proof -
    have "MState e [(1, s + 1, c)]
            \<in> set (cands ?f tx (Seq (Rep True 1 None not_period) (Str ''.''))
                     (MState t [(1, s + 1, c)]))"
      unfolding cands_Seq_iff using z1 z by blast
    moreover have "MState e [(2, t, e), (1, s + 1, c)]
        = MState (pos (MState e [(1, s + 1, c)]))
            ((2, pos (MState t [(1, s + 1, c)]), pos (MState e [(1, s + 1, c)]))
               # caps (MState e [(1, s + 1, c)]))"
      by simp
    ultimately show ?thesis unfolding cands_Grp_iff by blast
  qed
  have "MState e [(2, t, e), (1, s + 1, c)]
          \<in> set (cands ?f tx definition_pattern (MState s []))"
    unfolding definition_pattern_parts cands_Seq_iff
    using y1 y2 y3 y4 y5 y6 x7 by blast
  then show ?thesis by auto
qed

lemma trigger_first:
  assumes "w \<in> set triggers" "occurs_at tx w u"
  shows "u < length tx \<and> lower_chr (tx ! u) = lower_chr (w ! 0) \<and> \<not> is_space (tx ! u)"
proof -
  have wl: "0 < length w" using assms(1) by (auto simp: triggers_def)
  have le: "u + length w \<le> length tx"
    and eq: "lower (slice tx u (u + length w)) = lower w"
    using assms(2) by (auto simp: occurs_at_def)
  have "lower (slice tx u (u + length w)) ! 0 = lower w ! 0" using eq by simp
  then have l: "lower_chr (tx ! u) = lower_chr (w ! 0)"
    using wl le by (simp add: lower_def slice_def)
  have "\<not> is_space (lower_chr (w ! 0))"
    using assms(1) by (auto simp: triggers_def chr_eval)
  then have "\<not> is_space (tx ! u)" using l case_space(1)[of "tx ! u"] by simp
  moreover have "u < length tx" using wl le by linarith
  ultimately show ?thesis using l by simp
qed

lemma trigger_same:
  assumes "w \<in> set triggers" "w' \<in> set triggers" "lower_chr (w ! 0) = lower_chr (w' ! 0)"
  shows "w = w'"
  using assms by (auto simp: triggers_def chr_eval)

lemma definition_match_unique:
  assumes a: "definition_match tx s c u t e" and b: "definition_match tx s c' u' t' e'"
  shows "c = c' \<and> u = u' \<and> t = t' \<and> e = e'"
proof -
  from a obtain w where w: "w \<in> set triggers" "occurs_at tx w u" "t = u + length w"
    unfolding definition_match_def list_ex_iff by blast
  from b obtain w' where w': "w' \<in> set triggers" "occurs_at tx w' u'" "t' = u' + length w'"
    unfolding definition_match_def list_ex_iff by blast
  from a have a1: "s + 1 < c" "c < u" "t + 1 < e" "e \<le> length tx" "tx ! c = CHR 0x22"
    "tx ! (e - 1) = CHR ''.''"
    and la: "list_all (\<lambda>x. x \<noteq> CHR 0x22) (slice tx (s + 1) c)"
      "list_all is_space (slice tx (c + 1) u)"
      "list_all (\<lambda>x. x \<noteq> CHR ''.'') (slice tx t (e - 1))"
    unfolding definition_match_def by auto
  from b have b1: "s + 1 < c'" "c' < u'" "t' + 1 < e'" "e' \<le> length tx" "tx ! c' = CHR 0x22"
    "tx ! (e' - 1) = CHR ''.''"
    and lb: "list_all (\<lambda>x. x \<noteq> CHR 0x22) (slice tx (s + 1) c')"
      "list_all is_space (slice tx (c' + 1) u')"
      "list_all (\<lambda>x. x \<noteq> CHR ''.'') (slice tx t' (e' - 1))"
    unfolding definition_match_def by auto
  have ul: "u \<le> length tx" "u' \<le> length tx"
    using w(2) w'(2) by (auto simp: occurs_at_def)
  have cl: "c \<le> length tx" "c' \<le> length tx" using ul a1 b1 by auto
  have el: "e - 1 \<le> length tx" "e' - 1 \<le> length tx" using a1 b1 by auto
  have nqa: "tx ! p \<noteq> CHR 0x22" if "s + 1 \<le> p" "p < c" for p
    using la(1)[unfolded list_all_slice[OF cl(1)]] that by simp
  have nqb: "tx ! p \<noteq> CHR 0x22" if "s + 1 \<le> p" "p < c'" for p
    using lb(1)[unfolded list_all_slice[OF cl(2)]] that by simp
  have c: "c = c'"
  proof (rule ccontr)
    assume "c \<noteq> c'"
    then consider "c < c'" | "c' < c" by linarith
    then show False
    proof cases
      case 1
      from nqb[of c] a1(1,5) 1 show False by simp
    next
      case 2
      from nqa[of c'] b1(1,5) 2 show False by simp
    qed
  qed
  have spa: "is_space (tx ! p)" if "c + 1 \<le> p" "p < u" for p
    using la(2)[unfolded list_all_slice[OF ul(1)]] that by simp
  have spb: "is_space (tx ! p)" if "c + 1 \<le> p" "p < u'" for p
    using lb(2)[unfolded list_all_slice[OF ul(2)]] that c by simp
  have u: "u = u'"
  proof (rule ccontr)
    assume "u \<noteq> u'"
    then consider "u < u'" | "u' < u" by linarith
    then show False
    proof cases
      case 1
      from spb[of u] a1(2) 1 trigger_first[OF w(1,2)] show False by simp
    next
      case 2
      from spa[of u'] b1(2) c 2 trigger_first[OF w'(1,2)] show False by simp
    qed
  qed
  have "lower_chr (w ! 0) = lower_chr (w' ! 0)"
    using trigger_first[OF w(1,2)] trigger_first[OF w'(1,2)] u by simp
  from trigger_same[OF w(1) w'(1) this] have t: "t = t'" using w(3) w'(3) u by simp
  have npa: "tx ! p \<noteq> CHR ''.''" if "t \<le> p" "p < e - 1" for p
    using la(3)[unfolded list_all_slice[OF el(1)]] that by simp
  have npb: "tx ! p \<noteq> CHR ''.''" if "t \<le> p" "p < e' - 1" for p
    using lb(3)[unfolded list_all_slice[OF el(2)]] that t by simp
  have e: "e = e'"
  proof (rule ccontr)
    assume "e \<noteq> e'"
    then consider "e < e'" | "e' < e" by linarith
    then show False
    proof cases
      case 1
      from npb[of "e - 1"] a1(3,6) 1 show False by simp
    next
      case 2
      from npa[of "e' - 1"] b1(3,6) t 2 show False by simp
    qed
  qed
  from c u t e show ?thesis by simp
qed

lemma strip_leading_spaces:
  assumes "list_all is_space xs"
  shows "strip (xs @ ys) = strip ys"
proof -
  have "dropWhile is_space (xs @ ys) = dropWhile is_space ys"
    using assms by (simp add: dropWhile_append2 list_all_iff)
  then show ?thesis by (simp add: strip_def)
qed

lemma slice_append:
  assumes "a \<le> b" "b \<le> c"
  shows "slice tx a c = slice tx a b @ slice tx b c"
proof -
  have "c - a = (b - a) + (c - b)" using assms by simp
  then have "take (c - a) (drop a tx)
               = take (b - a) (drop a tx) @ take (c - b) (drop (b - a) (drop a tx))"
    by (simp only: take_add)
  moreover have "drop (b - a) (drop a tx) = drop b tx" using assms by simp
  ultimately show ?thesis by (simp add: slice_def)
qed

lemma find_from_covers:
  assumes "i \<le> s" "s \<le> length tx" "cands f tx r (MState s []) \<noteq> []"
  shows "\<exists>m. m \<in> set (find_from f r tx i) \<and> mstart m \<le> s \<and> (s < mend m \<or> mstart m = s)"
  using assms
proof (induction f r tx i rule: find_from.induct)
  case (1 f r tx i)
  have le: "i \<le> length tx" using 1(4,5) by simp
  then have nlt: "\<not> length tx < i" by simp
  note unf = find_from_unfold[OF le, of f r]
  show ?case
  proof (cases "cands f tx r (MState i [])")
    case Nil
    then have "i \<noteq> s" using 1(6) by auto
    then have "i + 1 \<le> s" using 1(4) by simp
    have rm: "rmatch f tx r (MState i []) Some = None"
      unfolding rmatch_Some_hd Nil by simp
    from 1(1)[OF nlt rm \<open>i + 1 \<le> s\<close> 1(5,6)] show ?thesis
      unfolding unf Nil by simp
  next
    case (Cons y ys)
    have rm: "rmatch f tx r (MState i []) Some = Some y"
      unfolding rmatch_Some_hd Cons by simp
    show ?thesis
    proof (cases "s < pos y \<or> s = i")
      case True
      then have "Match i (pos y) (caps y) \<in> set (find_from f r tx i)
                 \<and> mstart (Match i (pos y) (caps y)) \<le> s
                 \<and> (s < mend (Match i (pos y) (caps y)) \<or> mstart (Match i (pos y) (caps y)) = s)"
        unfolding unf Cons using 1(4) by auto
      then show ?thesis by blast
    next
      case False
      then have ge: "pos y \<le> s" "i < s" using 1(4) by auto
      show ?thesis
      proof (cases "i < pos y")
        case True
        from 1(2)[OF nlt rm True ge(1) 1(5,6)] show ?thesis
          unfolding unf Cons using True by auto
      next
        case F: False
        have "i + 1 \<le> s" using ge by simp
        from 1(3)[OF nlt rm F this 1(5,6)] show ?thesis
          unfolding unf Cons using F by auto
      qed
    qed
  qed
qed

lemma definition_matches_sound:
  assumes "m \<in> set (re_finditer IGNORECASE definition_pattern tx)"
  shows "\<exists>c u t. definition_match tx (mstart m) c u t (mend m)
            \<and> match_group tx m 1 = slice tx (mstart m + 1) c
            \<and> strip (match_group tx m 2) = strip (slice tx t (mend m))"
proof -
  from find_from_sound[OF assms[unfolded re_finditer_def]]
  obtain xs where c: "cands IGNORECASE tx definition_pattern (MState (mstart m) [])
              = MState (mend m) (mcaps m) # xs" by blast
  have "MState (mend m) (mcaps m)
          \<in> set (cands IGNORECASE tx definition_pattern (MState (mstart m) []))"
    unfolding c by simp
  from definition_cands_sound[OF this] obtain c u t q where
    d: "definition_match tx (mstart m) c u t (mend m)"
    and caps: "mcaps m = [(2, q, mend m), (1, mstart m + 1, c)]"
    and q: "t \<le> q" "q < mend m" "list_all is_space (slice tx t q)"
    by auto
  have g1: "match_group tx m 1 = slice tx (mstart m + 1) c"
    by (simp add: match_group_def caps)
  have g2: "match_group tx m 2 = slice tx q (mend m)"
    by (simp add: match_group_def caps)
  have "slice tx t (mend m) = slice tx t q @ slice tx q (mend m)"
    using q(1,2) by (intro slice_append) simp_all
  then have "strip (slice tx t (mend m)) = strip (slice tx q (mend m))"
    using strip_leading_spaces[OF q(3)] by simp
  then have "strip (match_group tx m 2) = strip (slice tx t (mend m))" unfolding g2 by simp
  with d g1 show ?thesis by blast
qed

text \<open>
  Claim C8, as the code has it. The mapping holds, for each match of the scan, the term
  of the match with its definition, a later match of the same term replacing an earlier
  one. A match is a definition in the text: a non-empty text in double quotes, white
  space or none, a trigger word in any case, and at least one character before the next
  period; its term is the quoted text and its definition the text from the trigger word
  to that period, both without the white space at their ends. The matches follow one
  another in the text, and a definition in the text is a match unless it starts inside
  an earlier match.
\<close>

theorem extract_definitions_matches:
  "(let ms = re_finditer IGNORECASE definition_pattern text in
     extract_definitions text
       = map_of (rev (map (\<lambda>m. (strip (match_group text m 1), strip (match_group text m 2))) ms))
     \<and> list_all (\<lambda>m. \<exists>c u t. definition_match text (mstart m) c u t (mend m)
                        \<and> match_group text m 1 = slice text (mstart m + 1) c
                        \<and> strip (match_group text m 2) = strip (slice text t (mend m))) ms
     \<and> in_order ms
     \<and> (\<forall>s c u t e. definition_match text s c u t e \<longrightarrow>
           (\<exists>m. m \<in> set ms \<and> mstart m = s \<and> mend m = e)
           \<or> (\<exists>m. m \<in> set ms \<and> mstart m < s \<and> s < mend m)))"
proof -
  define ms where "ms = re_finditer IGNORECASE definition_pattern text"
  have p1: "extract_definitions text
       = map_of (rev (map (\<lambda>m. (strip (match_group text m 1), strip (match_group text m 2))) ms))"
    unfolding ms_def by (rule extract_definitions_map_of)
  have p2: "list_all (\<lambda>m. \<exists>c u t. definition_match text (mstart m) c u t (mend m)
                        \<and> match_group text m 1 = slice text (mstart m + 1) c
                        \<and> strip (match_group text m 2) = strip (slice text t (mend m))) ms"
    unfolding list_all_iff ms_def using definition_matches_sound[of _ "text"] by blast
  have p3: "in_order ms" unfolding ms_def re_finditer_def by (rule find_from_in_order)
  have p4: "(\<exists>m. m \<in> set ms \<and> mstart m = s \<and> mend m = e)
           \<or> (\<exists>m. m \<in> set ms \<and> mstart m < s \<and> s < mend m)"
    if d: "definition_match text s c u t e" for s c u t e
  proof -
    have sl: "s \<le> length text" using d unfolding definition_match_def list_ex_iff by auto
    from find_from_covers[OF _ sl definition_cands_complete[OF d], of 0]
    obtain m where m: "m \<in> set ms" "mstart m \<le> s" "s < mend m \<or> mstart m = s"
      unfolding ms_def re_finditer_def by auto
    show ?thesis
    proof (cases "mstart m = s")
      case True
      from definition_matches_sound[OF m(1)[unfolded ms_def]] obtain c' u' t' where
        "definition_match text s c' u' t' (mend m)" unfolding True by blast
      from definition_match_unique[OF this d] have "mend m = e" by simp
      with m(1) True show ?thesis by blast
    next
      case False
      then have "mstart m < s" "s < mend m" using m(2,3) by auto
      with m(1) show ?thesis by blast
    qed
  qed
  from p1 p2 p3 p4 show ?thesis unfolding Let_def ms_def[symmetric] by blast
qed

lemma plain_eval:
  "length plain_text = 9"
  "plain_text ! 0 = CHR 0x22" "plain_text ! 2 = CHR 0x22" "plain_text ! 8 = CHR ''.''"
  by (simp_all add: plain_text_def)

text \<open>The definition in \<^verbatim>\<open>"A" is b.\<close>, found as the theorem says.\<close>

theorem extract_definitions_matches_witness:
  "definition_match plain_text 0 2 4 6 9
   \<and> (\<exists>m. m \<in> set (re_finditer IGNORECASE definition_pattern plain_text)
           \<and> mstart m = 0 \<and> mend m = 9)"
proof -
  have h: "definition_match plain_text 0 2 4 6 9"
    by (simp add: definition_match_def triggers_def occurs_at_def slice_def plain_eval lower_def)
       (simp add: plain_text_def chr_eval)
  from extract_definitions_matches[of plain_text]
  have "\<forall>s c u t e. definition_match plain_text s c u t e \<longrightarrow>
           (\<exists>m. m \<in> set (re_finditer IGNORECASE definition_pattern plain_text)
                  \<and> mstart m = s \<and> mend m = e)
           \<or> (\<exists>m. m \<in> set (re_finditer IGNORECASE definition_pattern plain_text)
                  \<and> mstart m < s \<and> s < mend m)"
    unfolding Let_def by blast
  with h have "(\<exists>m. m \<in> set (re_finditer IGNORECASE definition_pattern plain_text)
                  \<and> mstart m = 0 \<and> mend m = 9)
           \<or> (\<exists>m. m \<in> set (re_finditer IGNORECASE definition_pattern plain_text)
                  \<and> mstart m < 0 \<and> 0 < mend m)"
    by blast
  with h show ?thesis by simp
qed

lemma nested_matches:
  "re_finditer IGNORECASE definition_pattern nested_text = [Match 0 16 [(2, 7, 16), (1, 1, 2)]]"
  by (simp add: re_eval definition_pattern_def nested_text_def del: One_nat_def)

lemma bare_matches:
  "re_finditer IGNORECASE definition_pattern bare_text = []"
  by (simp add: re_eval definition_pattern_def bare_text_def del: One_nat_def)

text \<open>
  Claim C8 as written does not hold of the code. In \<^verbatim>\<open>"a" is "b" is c.\<close> the term
  \<open>b\<close> is in double quotes and the trigger word \<open>is\<close> follows it, with a period after;
  the mapping has no entry for it, because it lies inside the definition of \<open>a\<close>. In
  \<^verbatim>\<open>"A" means.\<close> the term \<open>A\<close> is in double quotes, the trigger word follows it and
  the next period comes at once; the mapping has no entry for it either.
\<close>

theorem extract_definitions_misses_quoted_terms:
  "slice nested_text 7 13 = CHR 0x22 # ''b'' @ CHR 0x22 # '' is''
   \<and> slice nested_text 13 16 = '' c.''
   \<and> extract_definitions nested_text ''b'' = None
   \<and> extract_definitions nested_text ''a'' = Some (CHR 0x22 # ''b'' @ CHR 0x22 # '' is c.'')
   \<and> extract_definitions bare_text ''A'' = None"
proof -
  have a: "slice nested_text 7 13 = CHR 0x22 # ''b'' @ CHR 0x22 # '' is''"
    "slice nested_text 13 16 = '' c.''"
    by (simp_all add: slice_def nested_text_def)
  have g: "strip (match_group nested_text (Match 0 16 [(2, 7, 16), (1, 1, 2)]) 1) = ''a''"
    "strip (match_group nested_text (Match 0 16 [(2, 7, 16), (1, 1, 2)]) 2)
       = CHR 0x22 # ''b'' @ CHR 0x22 # '' is c.''"
    by (simp_all add: match_group_def slice_def nested_text_def strip_def chr_eval)
  have l: "rev (map (\<lambda>m. (strip (match_group nested_text m 1), strip (match_group nested_text m 2)))
                    [Match 0 16 [(2, 7, 16), (1, 1, 2)]])
             = [(''a'', CHR 0x22 # ''b'' @ CHR 0x22 # '' is c.'')]"
    by (simp add: g del: One_nat_def)
  have b: "extract_definitions nested_text ''b'' = None"
    "extract_definitions nested_text ''a'' = Some (CHR 0x22 # ''b'' @ CHR 0x22 # '' is c.'')"
    unfolding extract_definitions_map_of nested_matches l by simp_all
  have c: "extract_definitions bare_text ''A'' = None"
    unfolding extract_definitions_map_of bare_matches by simp
  from a b c show ?thesis by simp
qed

end
